theory Spec2Isabelle
  imports Main "HOL-Library.Multiset"
begin

text \<open>
  A shallow embedding of \<open>packages/expo-router/build/useScreens.js\<close>: the reconciliation
  of a layout's children with an explicit order (\<open>getSortedChildren\<close>), the screen
  identifier (\<open>createGetIdForRoute\<close>), the memoized component adapter
  (\<open>getQualifiedRouteComponent\<close>) and the options of a screen (\<open>routeToScreen\<close>).
\<close>

section \<open>JavaScript values\<close>

text \<open>
  The values that flow through \<open>useScreens.js\<close> untyped: an order entry's \<open>redirect\<close>,
  the override props and the fields of a navigation options object. Numbers are the
  integral ones (no \<open>NaN\<close>); \<open>JFun v\<close> is a function that ignores its arguments and
  returns \<open>v\<close>, so \<open>() => null\<close> is \<open>JFun JNull\<close>; \<open>JRef a\<close> is any other object or
  function, known by its reference only.
\<close>

datatype jsval =
    JUndefined
  | JNull
  | JBool bool
  | JNum int
  | JStr string
  | JArr "jsval list"
  | JObj "(string \<times> jsval) list"
  | JFun jsval
  | JRef nat

text \<open>\<open>if (v)\<close>: the falsy values are \<open>undefined\<close>, \<open>null\<close>, \<open>false\<close>, \<open>0\<close> and \<open>""\<close>.\<close>

fun truthy :: "jsval \<Rightarrow> bool" where
  "truthy JUndefined = False"
| "truthy JNull = False"
| "truthy (JBool b) = b"
| "truthy (JNum n) = (n \<noteq> 0)"
| "truthy (JStr s) = (s \<noteq> [])"
| "truthy (JArr vs) = True"
| "truthy (JObj kvs) = True"
| "truthy (JFun v) = True"
| "truthy (JRef a) = True"

text \<open>\<open>typeof v === 'string'\<close>.\<close>

fun typeof_string :: "jsval \<Rightarrow> bool" where
  "typeof_string (JStr s) = True"
| "typeof_string v = False"

section \<open>Arrays\<close>

text \<open>\<open>Array.prototype.join\<close> on an array of strings.\<close>

fun js_join :: "string \<Rightarrow> string list \<Rightarrow> string" where
  "js_join sep [] = []"
| "js_join sep [x] = x"
| "js_join sep (x # y # ys) = x @ sep @ js_join sep (y # ys)"

text \<open>\<open>Array.prototype.findIndex\<close>; \<open>None\<close> is the result \<open>-1\<close>.\<close>

fun findIndex :: "('a \<Rightarrow> bool) \<Rightarrow> 'a list \<Rightarrow> nat option" where
  "findIndex P [] = None"
| "findIndex P (x # xs) = (if P x then Some 0 else map_option Suc (findIndex P xs))"

text \<open>\<open>xs.splice(i, 1)\<close>: the array without the element at index \<open>i\<close>.\<close>

definition splice1 :: "nat \<Rightarrow> 'a list \<Rightarrow> 'a list" where
  "splice1 i xs = take i xs @ drop (Suc i) xs"

text \<open>
  \<open>Array.prototype.sort(cmp)\<close>. ECMAScript fixes the result when \<open>cmp\<close> is a consistent
  comparator for the elements: with \<open>a =\<^sub>C\<^sub>F b\<close> for \<open>cmp a b = 0\<close>, \<open>a <\<^sub>C\<^sub>F b\<close> for
  \<open>cmp a b < 0\<close> and \<open>a >\<^sub>C\<^sub>F b\<close> for \<open>cmp a b > 0\<close>, the relation \<open>=\<^sub>C\<^sub>F\<close> is
  reflexive, symmetric and transitive, and \<open><\<^sub>C\<^sub>F\<close> and \<open>>\<^sub>C\<^sub>F\<close> are transitive.
\<close>

definition consistent_comparator :: "('a \<Rightarrow> 'a \<Rightarrow> int) \<Rightarrow> 'a set \<Rightarrow> bool" where
  "consistent_comparator cmp S \<longleftrightarrow>
     (\<forall>a \<in> S. cmp a a = 0) \<and>
     (\<forall>a \<in> S. \<forall>b \<in> S. cmp a b = 0 \<longrightarrow> cmp b a = 0) \<and>
     (\<forall>a \<in> S. \<forall>b \<in> S. \<forall>c \<in> S. cmp a b = 0 \<longrightarrow> cmp b c = 0 \<longrightarrow> cmp a c = 0) \<and>
     (\<forall>a \<in> S. \<forall>b \<in> S. \<forall>c \<in> S. cmp a b < 0 \<longrightarrow> cmp b c < 0 \<longrightarrow> cmp a c < 0) \<and>
     (\<forall>a \<in> S. \<forall>b \<in> S. \<forall>c \<in> S. cmp a b > 0 \<longrightarrow> cmp b c > 0 \<longrightarrow> cmp a c > 0)"

text \<open>
  For a consistent comparator the result is the stable sort: \<open>a\<close> stays before \<open>b\<close> unless
  \<open>cmp a b > 0\<close>. It is written as an insertion sort from the right end; the lemmas
  \<open>sorted_stable_sort\<close> and \<open>stable_stable_sort\<close> show that it orders by \<open>cmp\<close> and keeps
  equal elements in their order, and \<open>sorted_stable_unique\<close> that only one list does.
\<close>

fun sort_insert :: "('a \<Rightarrow> 'a \<Rightarrow> int) \<Rightarrow> 'a \<Rightarrow> 'a list \<Rightarrow> 'a list" where
  "sort_insert cmp x [] = [x]"
| "sort_insert cmp x (y # ys) =
     (if cmp x y \<le> 0 then x # y # ys else y # sort_insert cmp x ys)"

definition stable_sort :: "('a \<Rightarrow> 'a \<Rightarrow> int) \<Rightarrow> 'a list \<Rightarrow> 'a list" where
  "stable_sort cmp xs = foldr (sort_insert cmp) xs []"

text \<open>
  For a comparator that is not consistent the order is implementation-defined: the
  array still holds the same elements, in the order the engine at hand leaves them.
  That order is the parameter \<open>engine\<close>; a value of it that is not a rearrangement of the
  array is not an engine's and is ignored.
\<close>

definition Array_sort ::
  "(('a \<Rightarrow> 'a \<Rightarrow> int) \<Rightarrow> 'a list \<Rightarrow> 'a list) \<Rightarrow> ('a \<Rightarrow> 'a \<Rightarrow> int) \<Rightarrow> 'a list \<Rightarrow> 'a list" where
  "Array_sort engine cmp xs =
     (if consistent_comparator cmp (set xs) then stable_sort cmp xs
      else if mset (engine cmp xs) = mset xs then engine cmp xs
      else xs)"

text \<open>\<open>.filter(Boolean)\<close> on an array of objects and \<open>null\<close>s.\<close>

fun filter_Boolean :: "'a option list \<Rightarrow> 'a list" where
  "filter_Boolean [] = []"
| "filter_Boolean (None # xs) = filter_Boolean xs"
| "filter_Boolean (Some x # xs) = x # filter_Boolean xs"

section \<open>The data model\<close>

text \<open>
  Objects have identity: a \<open>RouteNode\<close> is reached through a reference, and a children
  array holds references. The heap \<open>h\<close> maps a reference to the node's fields.
\<close>

type_synonym ref = nat

text \<open>
  What an options source evaluates to: \<open>null\<close> or \<open>undefined\<close> (spreading it adds
  nothing), or an object. The source is a value or a function of the call arguments.
\<close>

datatype nav_result = NoOptions | OptionsObject "string \<rightharpoonup> jsval"

datatype options_source = OptionsValue nav_result | OptionsFunction "jsval \<Rightarrow> nav_result"

record module_exports =
  default_export :: jsval
  ErrorBoundary :: jsval
  getNavOptions :: options_source

text \<open>What \<open>route.loadRoute()\<close> returns: nothing, the module, or a promise of it.\<close>

datatype loaded = LoadedUndefined | LoadedModule module_exports | LoadedPromise module_exports

record DynamicSegment =
  seg_name :: string
  deep :: bool

record RouteNode =
  route :: string
  contextKey :: string
  children :: "ref list option"
  initialRouteName :: "string option"
  dynamic :: "DynamicSegment list option"
  generated :: bool
  loadRoute :: loaded

type_synonym heap = "ref \<Rightarrow> RouteNode"

record OrderEntry =
  name :: string
  redirect :: jsval
  initialParams :: jsval
  listeners :: jsval
  options :: jsval
  getId :: jsval

text \<open>An element of the reconciled output, \<open>{ route, props }\<close>.\<close>

record SortedChild =
  sc_route :: ref
  sc_props :: "(string \<times> jsval) list"

datatype warning =
    TooManyScreens string
  | NoRouteNamed string "string list"

datatype js_error =
    RedirectNotSupported
  | TypeError

section \<open>getSortedChildren\<close>

text \<open>
  The state of the \<open>order.map\<close> loop: the working copy \<open>entries\<close> and what
  \<open>console.warn\<close> has printed.
\<close>

record reconcile =
  entries :: "ref list"
  warnings :: "warning list"

text \<open>The props an order entry passes on, \<open>{ initialParams, listeners, options, getId }\<close>.\<close>

definition entry_props :: "OrderEntry \<Rightarrow> (string \<times> jsval) list" where
  "entry_props e =
     [(''initialParams'', initialParams e), (''listeners'', listeners e),
      (''options'', options e), (''getId'', getId e)]"

text \<open>The callback of \<open>order.map\<close>, lines 22 to 48; \<open>Inr None\<close> is \<open>return null\<close>.\<close>

definition order_callback ::
  "heap \<Rightarrow> ref list \<Rightarrow> reconcile \<Rightarrow> OrderEntry \<Rightarrow> (js_error + SortedChild option) \<times> reconcile" where
  "order_callback h cs st e =
     (if entries st = [] then
        (Inr None, st\<lparr>warnings := warnings st @ [TooManyScreens (name e)]\<rparr>)
      else
        (case findIndex (\<lambda>child. route (h child) = name e) (entries st) of
           None \<Rightarrow>
             (Inr None,
              st\<lparr>warnings := warnings st @ [NoRouteNamed (name e) (map (\<lambda>c. route (h c)) cs)]\<rparr>)
         | Some matchIndex \<Rightarrow>
             (let match = entries st ! matchIndex;
                  st' = st\<lparr>entries := splice1 matchIndex (entries st)\<rparr>
              in if truthy (redirect e) then
                   (if typeof_string (redirect e) then (Inl RedirectNotSupported, st')
                    else (Inr None, st'))
                 else (Inr (Some \<lparr>sc_route = match, sc_props = entry_props e\<rparr>), st'))))"

text \<open>\<open>order.map(callback)\<close>: a throw in the callback ends the loop.\<close>

fun order_map ::
  "heap \<Rightarrow> ref list \<Rightarrow> reconcile \<Rightarrow> OrderEntry list \<Rightarrow> (js_error + SortedChild option list) \<times> reconcile" where
  "order_map h cs st [] = (Inr [], st)"
| "order_map h cs st (e # es) =
     (case order_callback h cs st e of
        (Inl err, st') \<Rightarrow> (Inl err, st')
      | (Inr r, st') \<Rightarrow>
          (case order_map h cs st' es of
             (Inl err, st'') \<Rightarrow> (Inl err, st'')
           | (Inr rs, st'') \<Rightarrow> (Inr (r # rs), st'')))"

text \<open>
  What a call leaves behind: the caller's \<open>children\<close> array after the call, the
  warnings printed, and the value returned or the error thrown.
\<close>

record sorted_result =
  children_after :: "ref list"
  console :: "warning list"
  outcome :: "js_error + SortedChild list"

definition unordered :: "ref \<Rightarrow> SortedChild" where
  "unordered r = \<lparr>sc_route = r, sc_props = []\<rparr>"

text \<open>
  \<open>sortRoutesWithInitial\<close> lives in \<open>./Route\<close>, which is not part of the sources: the
  comparator factory is the parameter \<open>sortRoutesWithInitial\<close>, and \<open>engine\<close> is the
  parameter of \<open>Array_sort\<close>. The first branch sorts the caller's array itself; the
  second works on the copy \<open>[...children]\<close>.
\<close>

definition getSortedChildren ::
  "((ref \<Rightarrow> ref \<Rightarrow> int) \<Rightarrow> ref list \<Rightarrow> ref list) \<Rightarrow>
   (string option \<Rightarrow> RouteNode \<Rightarrow> RouteNode \<Rightarrow> int) \<Rightarrow> heap \<Rightarrow> ref list \<Rightarrow>
   OrderEntry list option \<Rightarrow> string option \<Rightarrow> sorted_result" where
  "getSortedChildren engine sortRoutesWithInitial h cs order init =
     (let cmp = (\<lambda>a b. sortRoutesWithInitial init (h a) (h b)) in
      case order of
        None \<Rightarrow>
          (let sorted = Array_sort engine cmp cs
           in \<lparr>children_after = sorted, console = [], outcome = Inr (map unordered sorted)\<rparr>)
      | Some [] \<Rightarrow>
          (let sorted = Array_sort engine cmp cs
           in \<lparr>children_after = sorted, console = [], outcome = Inr (map unordered sorted)\<rparr>)
      | Some (e # es) \<Rightarrow>
          (case order_map h cs \<lparr>entries = cs, warnings = []\<rparr> (e # es) of
             (Inl err, st) \<Rightarrow>
               \<lparr>children_after = cs, console = warnings st, outcome = Inl err\<rparr>
           | (Inr ordered, st) \<Rightarrow>
               \<lparr>children_after = cs, console = warnings st,
                outcome = Inr (filter_Boolean ordered @ map unordered (Array_sort engine cmp (entries st)))\<rparr>))"

section \<open>createGetIdForRoute\<close>

text \<open>
  A runtime parameter is a string or an array of strings; \<open>PObject t\<close> is any other
  truthy value that is not an array, such as a function or an object, \<open>t\<close> being the
  string it converts to. The parameter bag is the list of the object's own properties,
  in the order \<open>Object.keys\<close> lists them.
\<close>

datatype param = PString string | PArray "string list" | PObject string

type_synonym params = "(string \<times> param) list"

text \<open>
  \<open>params[key]\<close> reads an own property or, when there is none, one that the object
  inherits: \<open>proto\<close> holds the properties of its prototype (for a plain object
  \<open>Object.prototype\<close>, with \<open>constructor\<close>, \<open>toString\<close> and the like). \<open>None\<close> is
  \<open>undefined\<close>.
\<close>

definition js_get :: "(string \<rightharpoonup> param) \<Rightarrow> params \<Rightarrow> string \<Rightarrow> param option" where
  "js_get proto ps key = (case map_of ps key of Some v \<Rightarrow> Some v | None \<Rightarrow> proto key)"

text \<open>
  \<open>Map.prototype.set\<close> on a \<open>Map\<close> kept as the list of its entries in insertion order:
  a key that is already there keeps its place and takes the new value.
\<close>

fun Map_set :: "(string \<times> 'v) list \<Rightarrow> string \<Rightarrow> 'v \<Rightarrow> (string \<times> 'v) list" where
  "Map_set [] k v = [(k, v)]"
| "Map_set ((k', v') # m) k v = (if k' = k then (k, v) # m else (k', v') # Map_set m k v)"

text \<open>\<open>new Set(keys)\<close> and \<open>Set.prototype.delete\<close>, the set kept in insertion order.\<close>

definition Set_add :: "string list \<Rightarrow> string \<Rightarrow> string list" where
  "Set_add s k = (if k \<in> set s then s else s @ [k])"

definition new_Set :: "string list \<Rightarrow> string list" where
  "new_Set ks = foldl Set_add [] ks"

definition Set_delete :: "string list \<Rightarrow> string \<Rightarrow> string list" where
  "Set_delete s k = filter (\<lambda>x. x \<noteq> k) s"

text \<open>
  What the closure reads off the value of \<open>params[key]\<close>:
  \<open>Array.isArray(value)\<close>, \<open>value.length\<close>, the truthiness of \<open>value\<close>, \<open>value.join('/')\<close>
  and the string a template literal or \<open>join\<close> makes of it.
\<close>

fun Array_isArray :: "param option \<Rightarrow> bool" where
  "Array_isArray (Some (PArray xs)) = True"
| "Array_isArray v = False"

fun array_length :: "param option \<Rightarrow> nat" where
  "array_length (Some (PArray xs)) = length xs"
| "array_length v = 0"

fun param_truthy :: "param option \<Rightarrow> bool" where
  "param_truthy None = False"
| "param_truthy (Some (PString s)) = (s \<noteq> [])"
| "param_truthy (Some (PArray xs)) = True"
| "param_truthy (Some (PObject t)) = True"

fun array_join :: "string \<Rightarrow> param option \<Rightarrow> string" where
  "array_join sep (Some (PArray xs)) = js_join sep xs"
| "array_join sep v = []"

fun param_string :: "param option \<Rightarrow> string" where
  "param_string None = ''undefined''"
| "param_string (Some (PString s)) = s"
| "param_string (Some (PArray xs)) = js_join '','' xs"
| "param_string (Some (PObject t)) = t"

text \<open>Lines 140 to 145: the \<open>Map\<close> of the dynamic segments by name.\<close>

definition include_map :: "RouteNode \<Rightarrow> (string \<times> DynamicSegment) list" where
  "include_map node =
     (case dynamic node of
        None \<Rightarrow> []
      | Some ds \<Rightarrow> foldl (\<lambda>m segment. Map_set m (seg_name segment) segment) [] ds)"

text \<open>The variables of the loop over \<open>include.values()\<close>, lines 147 to 166.\<close>

record getId_state =
  segments :: "string list"
  unprocessedParams :: "string list"

definition segment_step ::
  "(string \<rightharpoonup> param) \<Rightarrow> params \<Rightarrow> getId_state \<Rightarrow> DynamicSegment \<Rightarrow> getId_state" where
  "segment_step proto ps st dyn =
     (let unprocessed = Set_delete (unprocessedParams st) (seg_name dyn);
          v = js_get proto ps (seg_name dyn);
          pushed =
            (if Array_isArray v \<and> 0 < array_length v then array_join ''/'' v
             else if param_truthy v \<and> \<not> Array_isArray v then param_string v
             else if deep dyn then ''[...'' @ seg_name dyn @ '']''
             else ''['' @ seg_name dyn @ '']'')
      in \<lparr>segments = segments st @ [pushed], unprocessedParams = unprocessed\<rparr>)"

definition getId_loop :: "(string \<rightharpoonup> param) \<Rightarrow> RouteNode \<Rightarrow> params \<Rightarrow> getId_state" where
  "getId_loop proto node ps =
     foldl (segment_step proto ps) \<lparr>segments = [], unprocessedParams = new_Set (map fst ps)\<rparr>
       (map snd (include_map node))"

text \<open>The \<open>searchParams\<close> array, lines 168 to 181.\<close>

definition getId_searchParams :: "(string \<rightharpoonup> param) \<Rightarrow> RouteNode \<Rightarrow> params \<Rightarrow> string list" where
  "getId_searchParams proto node ps =
     (if (case children node of Some [] \<Rightarrow> True | _ \<Rightarrow> False) then
        map (\<lambda>key. key @ ''='' @ param_string (js_get proto ps key))
          (filter (\<lambda>key. \<not> (key = ''screen'' \<or> key = ''params''))
             (unprocessedParams (getId_loop proto node ps)))
      else [])"

text \<open>
  The function \<open>createGetIdForRoute(route)\<close> returns, applied to its argument: \<open>None\<close> is
  a call without \<open>params\<close>, which defaults to \<open>{}\<close>. The parameter \<open>proto\<close> is what the
  params object inherits.
\<close>

definition createGetIdForRoute :: "(string \<rightharpoonup> param) \<Rightarrow> RouteNode \<Rightarrow> params option \<Rightarrow> string" where
  "createGetIdForRoute proto node arg =
     (let ps = (case arg of None \<Rightarrow> [] | Some p \<Rightarrow> p);
          joined = js_join ''/'' (segments (getId_loop proto node ps));
          searchParams = getId_searchParams proto node ps
      in if searchParams \<noteq> [] then
           (if joined \<noteq> [] then joined else contextKey node) @ ''?'' @ js_join ''&'' searchParams
         else joined)"

section \<open>fromImport and getQualifiedRouteComponent\<close>

text \<open>
  What \<open>fromImport\<close> puts under \<open>default\<close>: the component that renders the default
  export (or \<open>EmptyRoute\<close>) inside \<open><Try catch={ErrorBoundary}>\<close>, the \<open>EmptyRoute\<close>
  placeholder, or the default export as it is.
\<close>

datatype component =
    TryCatch jsval component
  | EmptyRoute
  | Exported jsval

text \<open>
  \<open>typeof v === 'object' && v && Object.keys(v).length === 0\<close>, for the values whose
  keys the model knows.
\<close>

fun empty_object :: "jsval \<Rightarrow> bool" where
  "empty_object (JObj kvs) = (kvs = [])"
| "empty_object (JArr vs) = (vs = [])"
| "empty_object v = False"

text \<open>\<open>fromImport\<close>, lines 65 to 85; \<open>production\<close> is \<open>process.env.NODE_ENV === 'production'\<close>.\<close>

definition fromImport :: "bool \<Rightarrow> module_exports \<Rightarrow> component" where
  "fromImport production m =
     (if truthy (ErrorBoundary m) then
        TryCatch (ErrorBoundary m)
          (if truthy (default_export m) then Exported (default_export m) else EmptyRoute)
      else if \<not> production \<and> empty_object (default_export m) then EmptyRoute
      else Exported (default_export m))"

text \<open>
  The objects the adapter allocates: \<open>React.lazy\<close> over the loader of a node,
  \<open>React.forwardRef\<close> around a loaded component, and the \<open>QualifiedRoute\<close> with its
  \<open>displayName\<close>, its node and its \<open>ScreenComponent\<close>. Each call that
  \<open>getQualifiedRouteComponent\<close> makes of \<open>React.lazy\<close> or \<open>React.forwardRef\<close> gives a new
  object, at the address \<open>next_object\<close>.
\<close>

datatype react_object =
    LazyComponent ref
  | ForwardRefComponent component
  | QualifiedRoute string ref nat

text \<open>
  \<open>qualifiedStore\<close> is the module's \<open>WeakMap\<close>, keyed by the reference of the
  \<open>RouteNode\<close>; \<open>objects\<close> is the store of the allocated components.
\<close>

record adapter_store =
  qualifiedStore :: "ref \<rightharpoonup> nat"
  objects :: "nat \<rightharpoonup> react_object"
  next_object :: nat

datatype import_mode = LazyImport | SyncImport

definition allocate :: "react_object \<Rightarrow> adapter_store \<Rightarrow> nat \<times> adapter_store" where
  "allocate obj st =
     (next_object st,
      st\<lparr>objects := (objects st)(next_object st \<mapsto> obj), next_object := Suc (next_object st)\<rparr>)"

text \<open>
  What the eager branch makes of \<open>value.loadRoute()\<close>: destructuring \<open>undefined\<close> throws
  a \<open>TypeError\<close>, and a promise has neither a \<open>default\<close> nor an \<open>ErrorBoundary\<close> of its own.
\<close>

definition fromImport_loaded :: "bool \<Rightarrow> loaded \<Rightarrow> js_error + component" where
  "fromImport_loaded production res =
     (case res of
        LoadedUndefined \<Rightarrow> Inl TypeError
      | LoadedModule m \<Rightarrow> Inr (fromImport production m)
      | LoadedPromise m \<Rightarrow> Inr (Exported JUndefined))"

text \<open>
  \<open>getQualifiedRouteComponent\<close>, lines 96 to 136. \<open>import_mode\<close> and \<open>NODE_ENV\<close> are
  parameters; the result is the reference of the component, and the store after the
  call.
\<close>

definition getQualifiedRouteComponent ::
  "import_mode \<Rightarrow> bool \<Rightarrow> heap \<Rightarrow> adapter_store \<Rightarrow> ref \<Rightarrow> (js_error + nat) \<times> adapter_store" where
  "getQualifiedRouteComponent mode production h st v =
     (case qualifiedStore st v of
        Some cached \<Rightarrow> (Inr cached, st)
      | None \<Rightarrow>
          (case (if mode = LazyImport then Inr (LazyComponent v)
                 else map_sum id ForwardRefComponent (fromImport_loaded production (loadRoute (h v)))) of
             Inl err \<Rightarrow> (Inl err, st)
           | Inr screen \<Rightarrow>
               (let (ScreenComponent, st1) = allocate screen st;
                    (qualified, st2) =
                      allocate (QualifiedRoute (''Route('' @ route (h v) @ '')'') v ScreenComponent) st1
                in (Inr qualified, st2\<lparr>qualifiedStore := (qualifiedStore st2)(v \<mapsto> qualified)\<rparr>))))"

text \<open>
  The stores the calls can reach: every cached component has been allocated, and two
  nodes never share one.
\<close>

definition store_ok :: "adapter_store \<Rightarrow> bool" where
  "store_ok st \<longleftrightarrow>
     (\<forall>v c. qualifiedStore st v = Some c \<longrightarrow> c < next_object st) \<and>
     (\<forall>v w c. qualifiedStore st v = Some c \<longrightarrow> qualifiedStore st w = Some c \<longrightarrow> v = w)"

definition empty_store :: adapter_store where
  "empty_store = \<lparr>qualifiedStore = Map.empty, objects = Map.empty, next_object = 0\<rparr>"

section \<open>routeToScreen\<close>

text \<open>\<open>{ ...r }\<close>: spreading \<open>null\<close> or \<open>undefined\<close> adds nothing.\<close>

definition spread :: "nav_result \<Rightarrow> (string \<rightharpoonup> jsval)" where
  "spread r = (case r of NoOptions \<Rightarrow> Map.empty | OptionsObject m \<Rightarrow> m)"

text \<open>\<open>typeof x === 'function' ? x(args) : x\<close>.\<close>

definition apply_options :: "options_source \<Rightarrow> jsval \<Rightarrow> nav_result" where
  "apply_options src args = (case src of OptionsFunction f \<Rightarrow> f args | OptionsValue r \<Rightarrow> r)"

text \<open>\<open>route.loadRoute()?.getNavOptions\<close>.\<close>

definition loaded_getNavOptions :: "loaded \<Rightarrow> options_source" where
  "loaded_getNavOptions res =
     (case res of LoadedModule m \<Rightarrow> getNavOptions m | _ \<Rightarrow> OptionsValue NoOptions)"

text \<open>
  The \<open>options\<close> prop of the element \<open>routeToScreen(route, { options, ...props })\<close>
  builds, lines 198 to 214, applied to \<open>args\<close>; an options object is a map from its
  keys. A call without \<open>options\<close> passes \<open>OptionsValue NoOptions\<close>.
\<close>

definition routeToScreen_options :: "RouteNode \<Rightarrow> options_source \<Rightarrow> jsval \<Rightarrow> (string \<rightharpoonup> jsval)" where
  "routeToScreen_options node opts args =
     (let staticOptions =
            (if generated node then loaded_getNavOptions (loadRoute node) else OptionsValue NoOptions);
          staticResult = apply_options staticOptions args;
          dynamicResult = apply_options opts args;
          output = spread staticResult ++ spread dynamicResult
      in if generated node then
           output(''tabBarButton'' \<mapsto> JFun JNull,
                  ''drawerItemStyle'' \<mapsto> JObj [(''height'', JNum 0), (''display'', JStr ''none'')])
         else output)"

section \<open>Specification-level notions and example inputs\<close>

text \<open>The first node of \<open>xs\<close> whose route name is \<open>n\<close>.\<close>

definition first_named :: "heap \<Rightarrow> ref list \<Rightarrow> string \<Rightarrow> ref" where
  "first_named h xs n = hd (filter (\<lambda>c. route (h c) = n) xs)"

text \<open>
  Modelled from the spec: \<open>sortRoutesWithInitial\<close> is defined in \<open>./Route\<close>, which is
  not among the sources. Section 4.1 asks for a total order in which the node whose
  name equals \<open>initialRouteName\<close> sorts first, and leaves the secondary ordering open;
  here all other nodes compare equal, so that the stable sort keeps them in declaration
  order. It is used for the concrete runs only.
\<close>

definition sortRoutesWithInitial_spec :: "string option \<Rightarrow> RouteNode \<Rightarrow> RouteNode \<Rightarrow> int" where
  "sortRoutesWithInitial_spec init a b =
     (if Some (route a) = init \<and> Some (route b) \<noteq> init then - 1
      else if Some (route b) = init \<and> Some (route a) \<noteq> init then 1
      else 0)"

text \<open>A static leaf route, and a heap with the routes \<open>A\<close>, \<open>B\<close>, \<open>C\<close> at the references 0, 1, 2.\<close>

definition plain_route :: "string \<Rightarrow> RouteNode" where
  "plain_route n =
     \<lparr>route = n, contextKey = ''./'' @ n @ ''.tsx'', children = Some [], initialRouteName = None,
      dynamic = None, generated = False, loadRoute = LoadedUndefined\<rparr>"

definition demo_heap :: heap where
  "demo_heap r =
     (if r = 0 then plain_route ''A'' else if r = 1 then plain_route ''B'' else plain_route ''C'')"

text \<open>An order entry \<open>{ name, redirect }\<close> with no override props.\<close>

definition plain_entry :: "string \<Rightarrow> jsval \<Rightarrow> OrderEntry" where
  "plain_entry n r =
     \<lparr>name = n, redirect = r, initialParams = JUndefined, listeners = JUndefined,
      options = JUndefined, getId = JUndefined\<rparr>"

text \<open>
  The per-segment text as C4 words it: the array joined when it is not empty, the value
  itself when the parameter is present and not an array, \<open>[...name]\<close> when it is absent
  and the segment is deep, \<open>[name]\<close> otherwise.
\<close>

definition segment_as_claimed :: "params \<Rightarrow> DynamicSegment \<Rightarrow> string" where
  "segment_as_claimed ps seg =
     (case map_of ps (seg_name seg) of
        Some (PArray (x # xs)) \<Rightarrow> js_join ''/'' (x # xs)
      | Some (PString s) \<Rightarrow> s
      | Some (PObject t) \<Rightarrow> t
      | None \<Rightarrow> (if deep seg then ''[...'' @ seg_name seg @ '']'' else ''['' @ seg_name seg @ '']'')
      | Some (PArray []) \<Rightarrow> ''['' @ seg_name seg @ '']'')"

text \<open>The route \<open>[post]\<close> with its one dynamic segment, as a leaf.\<close>

definition post_route :: RouteNode where
  "post_route = (plain_route ''[post]'')\<lparr>dynamic := Some [\<lparr>seg_name = ''post'', deep = False\<rparr>]\<rparr>"

text \<open>The route \<open>[a]/[...a]\<close>, whose two dynamic segments have the same name.\<close>

definition doubled_route :: RouteNode where
  "doubled_route =
     (plain_route ''[a]/[...a]'')\<lparr>dynamic :=
        Some [\<lparr>seg_name = ''a'', deep = False\<rparr>, \<lparr>seg_name = ''a'', deep = True\<rparr>]\<rparr>"

text \<open>
  The per-segment text as the code computes it, the parameter being read as an own or
  inherited property: the array joined with \<open>/\<close> when it is not empty, the value itself
  when it is a non-empty string, the string of any other truthy value that is not an
  array, and otherwise \<open>[...name]\<close> for a deep segment and \<open>[name]\<close> for any other.
\<close>

definition segment_text :: "(string \<rightharpoonup> param) \<Rightarrow> params \<Rightarrow> DynamicSegment \<Rightarrow> string" where
  "segment_text proto ps seg =
     (case (case map_of ps (seg_name seg) of Some v \<Rightarrow> Some v | None \<Rightarrow> proto (seg_name seg)) of
        Some (PArray (x # xs)) \<Rightarrow> js_join ''/'' (x # xs)
      | Some (PString (c # s)) \<Rightarrow> c # s
      | Some (PObject t) \<Rightarrow> t
      | _ \<Rightarrow> (if deep seg then ''[...'' @ seg_name seg @ '']'' else ''['' @ seg_name seg @ '']''))"

text \<open>
  What a plain object inherits from \<open>Object.prototype\<close>: eleven functions and the
  accessor \<open>__proto__\<close>, each with the string it converts to in V8.
\<close>

definition native :: "string \<Rightarrow> param" where
  "native f = PObject (''function '' @ f @ ''() { [native code] }'')"

definition Object_prototype :: "string \<rightharpoonup> param" where
  "Object_prototype =
     [''constructor'' \<mapsto> native ''Object'',
      ''__defineGetter__'' \<mapsto> native ''__defineGetter__'',
      ''__defineSetter__'' \<mapsto> native ''__defineSetter__'',
      ''hasOwnProperty'' \<mapsto> native ''hasOwnProperty'',
      ''__lookupGetter__'' \<mapsto> native ''__lookupGetter__'',
      ''__lookupSetter__'' \<mapsto> native ''__lookupSetter__'',
      ''isPrototypeOf'' \<mapsto> native ''isPrototypeOf'',
      ''propertyIsEnumerable'' \<mapsto> native ''propertyIsEnumerable'',
      ''toString'' \<mapsto> native ''toString'',
      ''valueOf'' \<mapsto> native ''valueOf'',
      ''toLocaleString'' \<mapsto> native ''toLocaleString'',
      ''__proto__'' \<mapsto> PObject ''[object Object]'']"

text \<open>The route \<open>[constructor]\<close>, whose segment has the name of an inherited property.\<close>

definition constructor_route :: RouteNode where
  "constructor_route =
     (plain_route ''[constructor]'')\<lparr>dynamic := Some [\<lparr>seg_name = ''constructor'', deep = False\<rparr>]\<rparr>"

text \<open>An engine that leaves an array with an inconsistent comparator as it is.\<close>

definition keep_order :: "(ref \<Rightarrow> ref \<Rightarrow> int) \<Rightarrow> ref list \<Rightarrow> ref list" where
  "keep_order cmp xs = xs"


definition full_entry :: "string \<Rightarrow> jsval \<Rightarrow> OrderEntry" where
  "full_entry n r =
     \<lparr>name = n, redirect = r, initialParams = JObj [(''id'', JStr ''7'')], listeners = JRef 3,
      options = JObj [(''title'', JStr ''Home'')], getId = JRef 4\<rparr>"

text \<open>A heap whose nodes all have the same fields: any two references are structurally identical.\<close>

definition twin_heap :: heap where
  "twin_heap r = plain_route ''A''"

text \<open>
  A generated route whose module exports \<open>getNavOptions\<close> as a function, and override
  options that set both chrome fields themselves.
\<close>

definition static_module :: module_exports where
  "static_module =
     \<lparr>default_export = JRef 5, ErrorBoundary = JUndefined,
      getNavOptions = OptionsFunction (\<lambda>args.
        OptionsObject [''title'' \<mapsto> JStr ''Sitemap'', ''tabBarButton'' \<mapsto> JRef 7])\<rparr>"

definition generated_route :: RouteNode where
  "generated_route =
     (plain_route ''_sitemap'')\<lparr>generated := True, loadRoute := LoadedModule static_module\<rparr>"

definition override_options :: options_source where
  "override_options =
     OptionsValue (OptionsObject
       [''tabBarButton'' \<mapsto> JRef 9, ''drawerItemStyle'' \<mapsto> JObj [(''height'', JNum 50)]])"

section \<open>Lemmas about the reconciliation\<close>

lemma mset_sort_insert: "mset (sort_insert cmp x xs) = add_mset x (mset xs)"
  by (induction xs) auto

lemma mset_stable_sort: "mset (stable_sort cmp xs) = mset xs"
  unfolding stable_sort_def by (induction xs) (auto simp: mset_sort_insert)

lemma mset_Array_sort: "mset (Array_sort engine cmp xs) = mset xs"
  by (simp add: Array_sort_def mset_stable_sort)





lemma consistent_flip':
  assumes "consistent_comparator cmp S" "a \<in> S" "b \<in> S" "cmp a b < 0"
  shows "cmp b a > 0"
proof -
  have refl: "cmp a a = 0" using assms(1,2) unfolding consistent_comparator_def by blast
  have "cmp b a \<noteq> 0"
  proof
    assume "cmp b a = 0"
    with assms(1-3) have "cmp a b = 0" unfolding consistent_comparator_def by blast
    with assms(4) show False by simp
  qed
  moreover have "\<not> cmp b a < 0"
  proof
    assume "cmp b a < 0"
    with assms have "cmp a a < 0" unfolding consistent_comparator_def by blast
    with refl show False by simp
  qed
  ultimately show ?thesis by linarith
qed






lemma sorted_stable_unique:
  assumes c: "consistent_comparator cmp S"
  shows "set ys \<subseteq> S \<Longrightarrow> set zs \<subseteq> S \<Longrightarrow>
         sorted_wrt (\<lambda>a b. cmp a b \<le> 0) ys \<Longrightarrow> sorted_wrt (\<lambda>a b. cmp a b \<le> 0) zs \<Longrightarrow>
         (\<forall>k \<in> S. filter (\<lambda>y. cmp k y = 0) ys = filter (\<lambda>y. cmp k y = 0) zs) \<Longrightarrow> ys = zs"
proof (induction ys arbitrary: zs)
  case Nil
  show ?case
  proof (cases zs)
    case Nil then show ?thesis by simp
  next
    case (Cons z zs')
    with Nil.prems have z: "z \<in> S" by simp
    then have "cmp z z = 0" using c unfolding consistent_comparator_def by blast
    moreover from Nil.prems(5) z have "filter (\<lambda>y. cmp z y = 0) zs = []" by simp
    ultimately show ?thesis using Cons by simp
  qed
next
  case (Cons y ys)
  from Cons.prems have y: "y \<in> S" and ys: "set ys \<subseteq> S" by auto
  have ry: "cmp y y = 0" using c y unfolding consistent_comparator_def by blast
  from Cons.prems(5) y have fy: "filter (\<lambda>x. cmp y x = 0) (y # ys) = filter (\<lambda>x. cmp y x = 0) zs"
    by blast
  with ry have fy': "filter (\<lambda>x. cmp y x = 0) zs = y # filter (\<lambda>x. cmp y x = 0) ys" by simp
  have "zs \<noteq> []"
  proof
    assume "zs = []"
    with fy' show False by simp
  qed
  then obtain z zs' where zs: "zs = z # zs'" by (cases zs) auto
  with Cons.prems have z: "z \<in> S" and zs': "set zs' \<subseteq> S" by auto
  have rz: "cmp z z = 0" using c z unfolding consistent_comparator_def by blast
  from fy' have "y \<in> set (filter (\<lambda>x. cmp y x = 0) zs)" by simp
  then have yin: "y \<in> set zs" by simp
  from Cons.prems(5) z have fz: "filter (\<lambda>x. cmp z x = 0) (y # ys) = filter (\<lambda>x. cmp z x = 0) zs"
    by blast
  have "filter (\<lambda>x. cmp z x = 0) zs = z # filter (\<lambda>x. cmp z x = 0) zs'" using rz by (simp add: zs)
  with fz have "z \<in> set (filter (\<lambda>x. cmp z x = 0) (y # ys))" by simp
  then have zin: "z \<in> set (y # ys)" using filter_is_subset[of "\<lambda>x. cmp z x = 0" "y # ys"] by blast
  have zy: "cmp z y \<le> 0"
    using yin Cons.prems(4) rz unfolding zs by auto
  have yz: "cmp y z \<le> 0"
    using zin Cons.prems(3) ry by auto
  have "cmp y z = 0"
  proof (rule ccontr)
    assume "cmp y z \<noteq> 0"
    with yz have "cmp y z < 0" by simp
    from consistent_flip'[OF c y z this] zy show False by simp
  qed
  with fy' have "y = z" unfolding zs by simp
  have "\<forall>k \<in> S. filter (\<lambda>x. cmp k x = 0) ys = filter (\<lambda>x. cmp k x = 0) zs'"
  proof
    fix k assume "k \<in> S"
    with Cons.prems(5) have "filter (\<lambda>x. cmp k x = 0) (y # ys) = filter (\<lambda>x. cmp k x = 0) (z # zs')"
      unfolding zs by blast
    then show "filter (\<lambda>x. cmp k x = 0) ys = filter (\<lambda>x. cmp k x = 0) zs'"
      unfolding \<open>y = z\<close> by (cases "cmp k z = 0") simp_all
  qed
  moreover from Cons.prems(3) have "sorted_wrt (\<lambda>a b. cmp a b \<le> 0) ys" by simp
  moreover from Cons.prems(4) have "sorted_wrt (\<lambda>a b. cmp a b \<le> 0) zs'" unfolding zs by simp
  ultimately have "ys = zs'" using Cons.IH[OF ys zs'] by blast
  with \<open>y = z\<close> zs show ?case by simp
qed


lemma findIndex_Some_nth:
  "findIndex P xs = Some i \<Longrightarrow> find P xs = Some (xs ! i)"
  by (induction xs arbitrary: i) (auto split: if_splits)

lemma findIndex_None: "findIndex P xs = None \<longleftrightarrow> find P xs = None"
  by (induction xs) auto

lemma splice1_findIndex:
  "findIndex P xs = Some i \<Longrightarrow> splice1 i xs = remove1 (xs ! i) xs"
proof (induction xs arbitrary: i)
  case Nil then show ?case by simp
next
  case (Cons x xs)
  show ?case
  proof (cases "P x")
    case True with Cons.prems show ?thesis by (simp add: splice1_def)
  next
    case False
    with Cons.prems obtain j where j: "findIndex P xs = Some j" "i = Suc j" by auto
    from findIndex_Some_nth[OF j(1)] have "P (xs ! j)" by (auto dest: find_Some_iff[THEN iffD1])
    with False have "x \<noteq> xs ! j" by auto
    with Cons.IH[OF j(1)] j(2) show ?thesis by (simp add: splice1_def)
  qed
qed

lemma callback_fst:
  "fst (order_callback h cs st e) =
     (case find (\<lambda>c. route (h c) = name e) (entries st) of
        None \<Rightarrow> Inr None
      | Some c \<Rightarrow>
          if truthy (redirect e) then (if typeof_string (redirect e) then Inl RedirectNotSupported else Inr None)
          else Inr (Some \<lparr>sc_route = c, sc_props = entry_props e\<rparr>))"
  by (auto simp: order_callback_def Let_def findIndex_None dest: findIndex_Some_nth split: option.splits)

lemma callback_entries:
  "entries (snd (order_callback h cs st e)) =
     (case find (\<lambda>c. route (h c) = name e) (entries st) of
        None \<Rightarrow> entries st
      | Some c \<Rightarrow> remove1 c (entries st))"
  by (auto simp: order_callback_def Let_def findIndex_None splice1_findIndex dest: findIndex_Some_nth split: option.splits)

lemma order_map_error:
  "fst (order_map h cs st es) = Inl err \<Longrightarrow> err = RedirectNotSupported"
proof (induction es arbitrary: st)
  case Nil then show ?case by simp
next
  case (Cons e es)
  show ?case
  proof (cases "order_callback h cs st e")
    case (Pair r st')
    show ?thesis
    proof (cases r)
      case (Inl x)
      with Pair callback_fst[of h cs st e] Cons.prems show ?thesis
        by (auto split: option.splits if_splits)
    next
      case (Inr v)
      with Pair Cons.prems Cons.IH[of st'] show ?thesis
        by (auto split: prod.splits sum.splits)
    qed
  qed
qed

lemma order_map_append:
  "order_map h cs st (xs @ ys) =
     (case order_map h cs st xs of
        (Inl err, st') \<Rightarrow> (Inl err, st')
      | (Inr rs, st') \<Rightarrow>
          (case order_map h cs st' ys of
             (Inl err, st'') \<Rightarrow> (Inl err, st'')
           | (Inr rs', st'') \<Rightarrow> (Inr (rs @ rs'), st'')))"
  by (induction xs arbitrary: st) (auto split: prod.splits sum.splits)

lemma order_map_Cons_Inr:
  "order_map h cs st (e # es) = (Inr rs, st'') \<longleftrightarrow>
     (\<exists>r st' rs'. order_callback h cs st e = (Inr r, st') \<and>
        order_map h cs st' es = (Inr rs', st'') \<and> rs = r # rs')"
  by (auto split: prod.splits sum.splits)

lemma filter_Boolean_append: "filter_Boolean (xs @ ys) = filter_Boolean xs @ filter_Boolean ys"
  by (induction xs rule: filter_Boolean.induct) auto

lemma find_Some_set: "find P xs = Some c \<Longrightarrow> c \<in> set xs \<and> P c"
  by (induction xs) (auto split: if_splits)

lemma order_map_mset:
  "order_map h cs st es = (Inr rs, st') \<Longrightarrow>
     \<exists>D. mset (map sc_route (filter_Boolean rs)) + mset (entries st') + D = mset (entries st) \<and>
         (\<forall>c \<in># D. \<exists>e \<in> set es. truthy (redirect e) \<and> name e = route (h c))"
proof (induction es arbitrary: st rs)
  case Nil then show ?case by auto
next
  case (Cons e es)
  from Cons.prems obtain r st1 rs' where
    cb: "order_callback h cs st e = (Inr r, st1)" and
    rest: "order_map h cs st1 es = (Inr rs', st')" and rs: "rs = r # rs'"
    using order_map_Cons_Inr[THEN iffD1, OF Cons.prems] by blast
  from Cons.IH[OF rest] obtain D where
    D: "mset (map sc_route (filter_Boolean rs')) + mset (entries st') + D = mset (entries st1)"
       "\<forall>c \<in># D. \<exists>e \<in> set es. truthy (redirect e) \<and> name e = route (h c)" by blast
  have f: "fst (order_callback h cs st e) = Inr r" and s: "entries (snd (order_callback h cs st e)) = entries st1"
    using cb by simp_all
  show ?case
  proof (cases "find (\<lambda>c. route (h c) = name e) (entries st)")
    case None
    with f s have "r = None" "entries st1 = entries st" by (simp_all add: callback_fst callback_entries)
    with D rs show ?thesis by (intro exI[of _ D]) auto
  next
    case (Some c)
    then have c: "c \<in> set (entries st)" "route (h c) = name e" by (auto dest: find_Some_set)
    from Some s have e1: "entries st1 = remove1 c (entries st)" by (simp add: callback_entries)
    with c have m: "mset (entries st) = add_mset c (mset (entries st1))" by simp
    show ?thesis
    proof (cases "truthy (redirect e)")
      case True
      with Some f have "r = None" by (auto simp: callback_fst split: if_splits)
      with D rs m True c show ?thesis by (intro exI[of _ "add_mset c D"]) auto
    next
      case False
      with Some f have "r = Some \<lparr>sc_route = c, sc_props = entry_props e\<rparr>" by (auto simp: callback_fst)
      with D rs m show ?thesis by (intro exI[of _ D]) auto
    qed
  qed
qed


lemma find_None_filter: "find P xs = None \<longleftrightarrow> filter P xs = []"
  by (induction xs) auto

lemma filter_remove1_other: "\<not> Q c \<Longrightarrow> filter Q (remove1 c xs) = filter Q xs"
  by (induction xs) auto

lemma filter_remove1_find: "find P xs = Some c \<Longrightarrow> filter P (remove1 c xs) = tl (filter P xs)"
  by (induction xs) (auto split: if_splits dest: find_Some_set)



lemma order_map_named:
  "order_map h cs st pre = (Inr rs, st') \<Longrightarrow>
     filter (\<lambda>c. route (h c) = n) (entries st') =
       drop (length (filter (\<lambda>p. name p = n) pre)) (filter (\<lambda>c. route (h c) = n) (entries st))"
proof (induction pre arbitrary: st rs)
  case Nil then show ?case by simp
next
  case (Cons e es)
  from order_map_Cons_Inr[THEN iffD1, OF Cons.prems] obtain r st1 rs' where
    cb: "order_callback h cs st e = (Inr r, st1)" and
    rest: "order_map h cs st1 es = (Inr rs', st')" by blast
  let ?N = "\<lambda>c. route (h c) = n"
  have s: "entries (snd (order_callback h cs st e)) = entries st1" using cb by simp
  have step: "filter ?N (entries st1) = drop (if name e = n then 1 else 0) (filter ?N (entries st))"
  proof (cases "find (\<lambda>c. route (h c) = name e) (entries st)")
    case None
    with s have "entries st1 = entries st" by (simp add: callback_entries)
    with None show ?thesis by (auto simp: find_None_filter)
  next
    case (Some c)
    with s have e1: "entries st1 = remove1 c (entries st)" by (simp add: callback_entries)
    from Some have "route (h c) = name e" by (auto dest: find_Some_set)
    with Some show ?thesis
      by (auto simp: e1 filter_remove1_find filter_remove1_other drop_Suc)
  qed
  from Cons.IH[OF rest] step show ?case by (simp add: add.commute)
qed

lemma find_hd: "filter P xs \<noteq> [] \<Longrightarrow> find P xs = Some (hd (filter P xs))"
  by (induction xs) auto

lemma order_map_next_match:
  assumes "order_map h cs st pre = (Inr rs, st')"
    and "length (filter (\<lambda>p. name p = n) pre) < length (filter (\<lambda>c. route (h c) = n) (entries st))"
  shows "find (\<lambda>c. route (h c) = n) (entries st') =
     Some (filter (\<lambda>c. route (h c) = n) (entries st) ! length (filter (\<lambda>p. name p = n) pre))"
proof -
  let ?k = "length (filter (\<lambda>p. name p = n) pre)"
  let ?cs = "filter (\<lambda>c. route (h c) = n) (entries st)"
  have f: "filter (\<lambda>c. route (h c) = n) (entries st') = drop ?k ?cs"
    by (rule order_map_named[OF assms(1)])
  with assms(2) have "filter (\<lambda>c. route (h c) = n) (entries st') \<noteq> []" by simp
  from find_hd[OF this] f assms(2) show ?thesis by (simp add: hd_drop_conv_nth)
qed

lemma outcome_nonempty:
  "es \<noteq> [] \<Longrightarrow> outcome (getSortedChildren eng srt h cs (Some es) init) =
     (case order_map h cs \<lparr>entries = cs, warnings = []\<rparr> es of
        (Inl err, st) \<Rightarrow> Inl err
      | (Inr ordered, st) \<Rightarrow>
          Inr (filter_Boolean ordered @
               map unordered (Array_sort eng (\<lambda>a b. srt init (h a) (h b)) (entries st))))"
  by (cases es) (simp_all add: getSortedChildren_def del: order_map.simps split: prod.splits sum.splits)

lemma order_map_split:
  assumes "order_map h cs st (pre @ e # post) = (Inr rs, st3)"
  obtains rs1 st1 r st2 rs3 where
    "order_map h cs st pre = (Inr rs1, st1)"
    "order_callback h cs st1 e = (Inr r, st2)"
    "order_map h cs st2 post = (Inr rs3, st3)"
    "rs = rs1 @ r # rs3"
  using assms by (auto simp: order_map_append split: prod.splits sum.splits)

lemma outcome_unordered:
  "order = None \<or> order = Some [] \<Longrightarrow>
   outcome (getSortedChildren eng srt h cs order init) =
     Inr (map unordered (Array_sort eng (\<lambda>a b. srt init (h a) (h b)) cs))"
  by (auto simp: getSortedChildren_def Let_def)

lemma distinct_mset_sub:
  assumes "mset xs \<subseteq># mset ys" and "distinct ys"
  shows "distinct xs"
proof -
  have "count (mset xs) a = (if a \<in> set xs then 1 else 0)" for a
  proof (cases "a \<in> set xs")
    case True
    have "count (mset xs) a \<le> count (mset ys) a"
      using assms(1) by (rule mset_subset_eq_count)
    moreover have "count (mset ys) a \<le> 1"
      using assms(2) by (simp add: distinct_count_atmost_1)
    moreover from True have "0 < count (mset xs) a" by simp
    ultimately have "count (mset xs) a = 1" by linarith
    with True show ?thesis by simp
  next
    case False
    then show ?thesis by (simp add: count_eq_zero_iff)
  qed
  then show ?thesis unfolding distinct_count_atmost_1 by blast
qed

lemma sc_route_unordered: "map sc_route (map unordered xs) = xs"
  by (induction xs) (auto simp: unordered_def)

lemma nodes_accounted:
  assumes "outcome (getSortedChildren eng srt h cs order init) = Inr out"
  shows "\<exists>D. mset (map sc_route out) + D = mset cs \<and>
     (\<forall>c \<in># D. \<exists>es e. order = Some es \<and> e \<in> set es \<and> truthy (redirect e) \<and> name e = route (h c))"
proof (cases "order = None \<or> order = Some []")
  case True
  with assms have "out = map unordered (Array_sort eng (\<lambda>a b. srt init (h a) (h b)) cs)"
    by (simp add: outcome_unordered)
  then have "map sc_route out = Array_sort eng (\<lambda>a b. srt init (h a) (h b)) cs"
    by (simp only: sc_route_unordered)
  then have "mset (map sc_route out) + {#} = mset cs"
    by (simp only: mset_Array_sort add.right_neutral)
  then show ?thesis by (intro exI[of _ "{#}"]) simp
next
  case False
  then obtain es where es: "order = Some es" "es \<noteq> []" by (cases order) auto
  with assms obtain rs st where run: "order_map h cs \<lparr>entries = cs, warnings = []\<rparr> es = (Inr rs, st)"
    and o: "out = filter_Boolean rs @ map unordered (Array_sort eng (\<lambda>a b. srt init (h a) (h b)) (entries st))"
    by (auto simp: outcome_nonempty split: prod.splits sum.splits)
  from order_map_mset[OF run] obtain D where
    D: "mset (map sc_route (filter_Boolean rs)) + mset (entries st) + D = mset cs"
       "\<forall>c \<in># D. \<exists>e \<in> set es. truthy (redirect e) \<and> name e = route (h c)" by auto
  have "map sc_route out = map sc_route (filter_Boolean rs) @ Array_sort eng (\<lambda>a b. srt init (h a) (h b)) (entries st)"
    by (simp only: o map_append sc_route_unordered)
  then have "mset (map sc_route out) + D = mset cs"
    using D(1) by (simp only: mset_append mset_Array_sort)
  with D(2) es(1) show ?thesis by (intro exI[of _ D]) auto
qed

lemma callback_empty_string:
  "redirect e = JStr [] \<Longrightarrow>
   order_callback h cs st (e\<lparr>redirect := JUndefined\<rparr>) = order_callback h cs st e"
  by (auto simp: order_callback_def entry_props_def Let_def split: option.splits)

lemma order_map_no_throw:
  "\<forall>e \<in> set es. \<not> (typeof_string (redirect e) \<and> truthy (redirect e)) \<Longrightarrow>
   \<exists>rs st'. order_map h cs st es = (Inr rs, st')"
proof (induction es arbitrary: st)
  case Nil then show ?case by simp
next
  case (Cons e es)
  obtain r st1 where cb: "order_callback h cs st e = (r, st1)" by (cases "order_callback h cs st e")
  then have "fst (order_callback h cs st e) = r" by simp
  with Cons.prems obtain v where r: "r = Inr v"
    by (cases r) (auto simp: callback_fst split: option.splits if_splits)
  from Cons.IH[of st1] Cons.prems obtain rs st' where "order_map h cs st1 es = (Inr rs, st')" by auto
  with cb r show ?case by simp
qed

lemma empty_string_emits:
  assumes r: "redirect e = JStr []"
    and k: "length (filter (\<lambda>p. name p = name e) pre) < length (filter (\<lambda>c. route (h c) = name e) cs)"
    and out: "outcome (getSortedChildren eng srt h cs (Some (pre @ e # post)) init) = Inr out"
  shows "\<lparr>sc_route = filter (\<lambda>c. route (h c) = name e) cs ! length (filter (\<lambda>p. name p = name e) pre),
          sc_props = entry_props e\<rparr> \<in> set out"
proof -
  let ?st = "\<lparr>entries = cs, warnings = []\<rparr>"
  let ?c = "filter (\<lambda>c. route (h c) = name e) cs ! length (filter (\<lambda>p. name p = name e) pre)"
  from out obtain rs st3 where run: "order_map h cs ?st (pre @ e # post) = (Inr rs, st3)"
    and o: "out = filter_Boolean rs @ map unordered (Array_sort eng (\<lambda>a b. srt init (h a) (h b)) (entries st3))"
    by (auto simp: outcome_nonempty split: prod.splits sum.splits)
  from run obtain rs1 st1 v st2 rs3 where
    p: "order_map h cs ?st pre = (Inr rs1, st1)" and
    c: "order_callback h cs st1 e = (Inr v, st2)" and
    rs: "rs = rs1 @ v # rs3" by (rule order_map_split)
  from order_map_next_match[OF p] k have f: "find (\<lambda>c. route (h c) = name e) (entries st1) = Some ?c" by simp
  from c have "fst (order_callback h cs st1 e) = Inr v" by simp
  with f r have "v = Some \<lparr>sc_route = ?c, sc_props = entry_props e\<rparr>" by (simp add: callback_fst)
  then show ?thesis by (simp add: o rs filter_Boolean_append)
qed

lemma string_redirect_throws:
  assumes "length (filter (\<lambda>p. name p = name e) pre) < length (filter (\<lambda>c. route (h c) = name e) cs)"
    and "redirect e = JStr s" and "s \<noteq> []"
  shows "outcome (getSortedChildren eng srt h cs (Some (pre @ e # post)) init) = Inl RedirectNotSupported"
proof -
  let ?st = "\<lparr>entries = cs, warnings = []\<rparr>"
  obtain x st3 where run: "order_map h cs ?st (pre @ e # post) = (x, st3)"
    by (cases "order_map h cs ?st (pre @ e # post)")
  have "\<exists>err. x = Inl err"
  proof (cases x)
    case (Inl err) then show ?thesis by simp
  next
    case (Inr rs)
    with run obtain rs1 st1 r st2 where
      p: "order_map h cs ?st pre = (Inr rs1, st1)" and c: "order_callback h cs st1 e = (Inr r, st2)"
      by (auto elim: order_map_split)
    from order_map_next_match[OF p] assms(1)
    have "find (\<lambda>c. route (h c) = name e) (entries st1) \<noteq> None" by simp
    with assms(2,3) have "\<exists>err. fst (order_callback h cs st1 e) = Inl err"
      by (auto simp: callback_fst)
    with c show ?thesis by simp
  qed
  then obtain err where "x = Inl err" ..
  moreover with run order_map_error[of h cs ?st "pre @ e # post" err] have "err = RedirectNotSupported" by simp
  ultimately show ?thesis using run by (simp add: outcome_nonempty)
qed

lemma other_redirect_consumes:
  assumes k: "length (filter (\<lambda>p. name p = name e) pre) < length (filter (\<lambda>c. route (h c) = name e) cs)"
    and t: "truthy (redirect e)" "\<not> typeof_string (redirect e)"
    and out: "outcome (getSortedChildren eng srt h cs (Some (pre @ e # post)) init) = Inr out"
  shows "count (mset (map sc_route out))
            (filter (\<lambda>c. route (h c) = name e) cs ! length (filter (\<lambda>p. name p = name e) pre))
         < count (mset cs)
            (filter (\<lambda>c. route (h c) = name e) cs ! length (filter (\<lambda>p. name p = name e) pre))"
proof -
  let ?st = "\<lparr>entries = cs, warnings = []\<rparr>"
  let ?c = "filter (\<lambda>c. route (h c) = name e) cs ! length (filter (\<lambda>p. name p = name e) pre)"
  let ?cmp = "\<lambda>a b. srt init (h a) (h b)"
  from out obtain rs st3 where run: "order_map h cs ?st (pre @ e # post) = (Inr rs, st3)"
    and o: "out = filter_Boolean rs @ map unordered (Array_sort eng ?cmp (entries st3))"
    by (auto simp: outcome_nonempty split: prod.splits sum.splits)
  from run obtain rs1 st1 r st2 rs3 where
    p: "order_map h cs ?st pre = (Inr rs1, st1)" and
    c: "order_callback h cs st1 e = (Inr r, st2)" and
    q: "order_map h cs st2 post = (Inr rs3, st3)" and
    rs: "rs = rs1 @ r # rs3" by (rule order_map_split)
  from order_map_next_match[OF p] k have f: "find (\<lambda>c. route (h c) = name e) (entries st1) = Some ?c" by simp
  from c have "fst (order_callback h cs st1 e) = Inr r" "entries (snd (order_callback h cs st1 e)) = entries st2"
    by simp_all
  with f t have r: "r = None" and e2: "entries st2 = remove1 ?c (entries st1)"
    by (auto simp: callback_fst callback_entries)
  from f have "?c \<in> set (entries st1)" by (auto dest: find_Some_set)
  with e2 have m: "mset (entries st1) = add_mset ?c (mset (entries st2))" by simp
  from order_map_mset[OF p] obtain D1 where
    D1: "mset (map sc_route (filter_Boolean rs1)) + mset (entries st1) + D1 = mset cs" by auto
  from order_map_mset[OF q] obtain D3 where
    D3: "mset (map sc_route (filter_Boolean rs3)) + mset (entries st3) + D3 = mset (entries st2)" by auto
  have u: "sc_route \<circ> unordered = (\<lambda>r. r)" by (auto simp: unordered_def)
  have "mset (map sc_route out) =
      mset (map sc_route (filter_Boolean rs1)) + mset (map sc_route (filter_Boolean rs3)) + mset (entries st3)"
    by (simp add: o rs r filter_Boolean_append u mset_Array_sort)
  then have c4: "count (mset (map sc_route out)) ?c =
      count (mset (map sc_route (filter_Boolean rs1))) ?c +
      count (mset (map sc_route (filter_Boolean rs3))) ?c + count (mset (entries st3)) ?c"
    by simp
  from arg_cong[OF D1, of "\<lambda>M. count M ?c"]
  have c1: "count (mset cs) ?c =
      count (mset (map sc_route (filter_Boolean rs1))) ?c + count (mset (entries st1)) ?c + count D1 ?c"
    by simp
  from arg_cong[OF D3, of "\<lambda>M. count M ?c"]
  have c3: "count (mset (entries st2)) ?c =
      count (mset (map sc_route (filter_Boolean rs3))) ?c + count (mset (entries st3)) ?c + count D3 ?c"
    by simp
  from arg_cong[OF m, of "\<lambda>M. count M ?c"]
  have c2: "count (mset (entries st1)) ?c = Suc (count (mset (entries st2)) ?c)"
    by simp
  from c1 c2 c3 c4 show ?thesis by linarith
qed





lemmas demo_simps =
  getSortedChildren_def order_callback_def splice1_def Array_sort_def stable_sort_def
  consistent_comparator_def unordered_def entry_props_def
  sortRoutesWithInitial_spec_def plain_route_def demo_heap_def plain_entry_def first_named_def Let_def

section \<open>Claims about getSortedChildren\<close>

subsection \<open>C1: which nodes the output holds\<close>

text \<open>
  As stated, C1 fails: an order entry with a truthy redirect that is not a string
  consumes its node and emits nothing, so the node is lost. With the single child \<open>A\<close>
  and the order \<open>[{ name: 'A', redirect: true }]\<close> the output is empty.
\<close>

theorem getSortedChildren_loses_redirected_node:
  "outcome (getSortedChildren keep_order sortRoutesWithInitial_spec demo_heap [0]
      (Some [plain_entry ''A'' (JBool True)]) None) = Inr [] \<and>
   set (map sc_route ([] :: SortedChild list)) \<noteq> set [0 :: ref]"
  by (simp add: demo_simps)

text \<open>
  C1, amended. Whenever \<open>getSortedChildren\<close> returns, no node is added and none is
  repeated: the nodes of the output form a sub-multiset of \<open>children\<close>, so they are
  pairwise distinct when the children are. A child that is missing from the output has
  the name of an order entry with a truthy redirect. When no entry has a truthy
  redirect, the output holds exactly the children, each as often as \<open>children\<close> does.
\<close>

theorem getSortedChildren_nodes:
  assumes "outcome (getSortedChildren eng srt h cs order init) = Inr out"
  shows "mset (map sc_route out) \<subseteq># mset cs \<and>
     (distinct cs \<longrightarrow> distinct (map sc_route out)) \<and>
     set (map sc_route out) \<subseteq> set cs \<and>
     (\<forall>c. c \<in># mset cs - mset (map sc_route out) \<longrightarrow>
        (\<exists>es e. order = Some es \<and> e \<in> set es \<and> truthy (redirect e) \<and> name e = route (h c))) \<and>
     ((\<forall>es e. order = Some es \<longrightarrow> e \<in> set es \<longrightarrow> \<not> truthy (redirect e)) \<longrightarrow>
        mset (map sc_route out) = mset cs \<and> set (map sc_route out) = set cs)"
proof -
  from nodes_accounted[OF assms] obtain D where
    D: "mset (map sc_route out) + D = mset cs"
       "\<forall>c \<in># D. \<exists>es e. order = Some es \<and> e \<in> set es \<and> truthy (redirect e) \<and> name e = route (h c)"
    by blast
  from D(1) have sub: "mset (map sc_route out) \<subseteq># mset cs"
    by (metis mset_subset_eq_add_left)
  from D(1) have diff: "mset cs - mset (map sc_route out) = D"
    by (metis add_diff_cancel_left')
  have dist: "distinct cs \<longrightarrow> distinct (map sc_route out)"
    using sub by (blast intro: distinct_mset_sub)
  have sset: "set (map sc_route out) \<subseteq> set cs"
    using set_mset_mono[OF sub] by simp
  have none: "mset (map sc_route out) = mset cs \<and> set (map sc_route out) = set cs"
    if "\<forall>es e. order = Some es \<longrightarrow> e \<in> set es \<longrightarrow> \<not> truthy (redirect e)"
  proof -
    from that D(2) have "D = {#}" by (metis multiset_nonemptyE)
    with D(1) have "mset (map sc_route out) = mset cs" by simp
    then show ?thesis by (metis set_mset_mset)
  qed
  from sub dist sset D(2) none show ?thesis unfolding diff by blast
qed

text \<open>
  The theorem at children \<open>[A, B, C]\<close>, order \<open>[{ name: 'B' }]\<close> and initial route \<open>C\<close>:
  the output is \<open>B\<close>, \<open>C\<close>, \<open>A\<close>.
\<close>

theorem getSortedChildren_nodes_witness:
  "outcome (getSortedChildren keep_order sortRoutesWithInitial_spec demo_heap [0, 1, 2]
      (Some [plain_entry ''B'' JUndefined]) (Some ''C'')) =
     Inr [\<lparr>sc_route = 1, sc_props = entry_props (plain_entry ''B'' JUndefined)\<rparr>,
          \<lparr>sc_route = 2, sc_props = []\<rparr>, \<lparr>sc_route = 0, sc_props = []\<rparr>] \<and>
   mset [1, 2, 0] = mset [0, 1, 2 :: ref] \<and> distinct [1, 2, 0 :: ref]"
proof -
  let ?out = "[\<lparr>sc_route = 1, sc_props = entry_props (plain_entry ''B'' JUndefined)\<rparr>,
          \<lparr>sc_route = 2, sc_props = []\<rparr>, \<lparr>sc_route = 0, sc_props = []\<rparr>]"
  have run: "outcome (getSortedChildren keep_order sortRoutesWithInitial_spec demo_heap [0, 1, 2]
      (Some [plain_entry ''B'' JUndefined]) (Some ''C'')) = Inr ?out"
    by (simp add: demo_simps)
  have d: "distinct [0, 1, 2 :: ref]" by simp
  have n: "\<forall>es e. Some [plain_entry ''B'' JUndefined] = Some es \<longrightarrow> e \<in> set es \<longrightarrow>
      \<not> truthy (redirect e)"
    by (simp add: plain_entry_def)
  from getSortedChildren_nodes[OF run] d n
  have "mset (map sc_route ?out) = mset [0, 1, 2] \<and> distinct (map sc_route ?out)" by blast
  with run show ?thesis by simp
qed

subsection \<open>C2: explicit order first, then the sorted remainder\<close>



subsection \<open>C3: redirect entries\<close>

text \<open>
  C3. Take an entry \<open>e\<close> of the order, after the entries \<open>pre\<close> and before \<open>post\<close>, that
  matches a child: more children carry its name than entries of \<open>pre\<close> do, so one is
  left in the working copy when \<open>e\<close> is reached (lemma \<open>order_map_next_match\<close>); its
  match is the child written \<open>c\<close> below. If the redirect of \<open>e\<close> is a non-empty
  string, the call throws, whatever the other entries are. If it is any other truthy
  value, then whenever the call returns the node \<open>c\<close> occurs in the output once less
  than in \<open>children\<close> (not at all when the children are distinct): no descriptor is
  emitted for it and it is not appended with the remainder. The call does return when
  no other entry has a non-empty string redirect.
\<close>

theorem getSortedChildren_redirect:
  assumes "length (filter (\<lambda>p. name p = name e) pre) <
           length (filter (\<lambda>c. route (h c) = name e) cs)"
    and "c = filter (\<lambda>c. route (h c) = name e) cs ! length (filter (\<lambda>p. name p = name e) pre)"
  shows "(\<forall>s. redirect e = JStr s \<longrightarrow> s \<noteq> [] \<longrightarrow>
            outcome (getSortedChildren eng srt h cs (Some (pre @ e # post)) init) =
              Inl RedirectNotSupported) \<and>
         (truthy (redirect e) \<longrightarrow> \<not> typeof_string (redirect e) \<longrightarrow>
            (\<forall>out. outcome (getSortedChildren eng srt h cs (Some (pre @ e # post)) init) = Inr out \<longrightarrow>
               count (mset (map sc_route out)) c < count (mset cs) c \<and>
               (distinct cs \<longrightarrow> c \<notin> set (map sc_route out))) \<and>
            ((\<forall>p \<in> set (pre @ post). \<not> (typeof_string (redirect p) \<and> truthy (redirect p))) \<longrightarrow>
               (\<exists>out. outcome (getSortedChildren eng srt h cs (Some (pre @ e # post)) init) = Inr out)))"
proof -
  have less: "count (mset (map sc_route out)) c < count (mset cs) c"
    if "truthy (redirect e)" "\<not> typeof_string (redirect e)"
       "outcome (getSortedChildren eng srt h cs (Some (pre @ e # post)) init) = Inr out" for out
    unfolding assms(2) using assms(1) that by (rule other_redirect_consumes)
  have absent: "c \<notin> set (map sc_route out)"
    if "count (mset (map sc_route out)) c < count (mset cs) c" "distinct cs" for out
  proof -
    from that(2) have "count (mset cs) c \<le> 1" by (simp add: distinct_count_atmost_1)
    with that(1) have "count (mset (map sc_route out)) c = 0" by linarith
    then show ?thesis by (simp add: count_eq_zero_iff del: mset_map)
  qed
  have returns: "\<exists>out. outcome (getSortedChildren eng srt h cs (Some (pre @ e # post)) init) = Inr out"
    if "truthy (redirect e)" "\<not> typeof_string (redirect e)"
       "\<forall>p \<in> set (pre @ post). \<not> (typeof_string (redirect p) \<and> truthy (redirect p))"
  proof -
    from that have "\<forall>p \<in> set (pre @ e # post). \<not> (typeof_string (redirect p) \<and> truthy (redirect p))"
      by auto
    from order_map_no_throw[OF this, of h cs "\<lparr>entries = cs, warnings = []\<rparr>"]
    show ?thesis by (auto simp: outcome_nonempty)
  qed
  from string_redirect_throws[OF assms(1), of _ eng srt post init] less absent returns
  show ?thesis by blast
qed

text \<open>
  The theorem at children \<open>[A, B]\<close>: the order
  \<open>[{ name: 'Z' }, { name: 'B', redirect: '/somewhere' }]\<close> throws, and the order
  \<open>[{ name: 'A', redirect: true }]\<close> returns \<open>B\<close> alone.
\<close>

theorem getSortedChildren_redirect_witness:
  "outcome (getSortedChildren keep_order sortRoutesWithInitial_spec demo_heap [0, 1]
      (Some [plain_entry ''Z'' JUndefined, plain_entry ''B'' (JStr ''/somewhere'')]) None) =
     Inl RedirectNotSupported \<and>
   outcome (getSortedChildren keep_order sortRoutesWithInitial_spec demo_heap [0, 1]
      (Some [plain_entry ''A'' (JBool True)]) None) = Inr [\<lparr>sc_route = 1, sc_props = []\<rparr>] \<and>
   0 \<notin> set (map sc_route [\<lparr>sc_route = 1, sc_props = []\<rparr>])"
proof -
  let ?B = "plain_entry ''B'' (JStr ''/somewhere'')"
  let ?A = "plain_entry ''A'' (JBool True)"
  have kB: "length (filter (\<lambda>p. name p = name ?B) [plain_entry ''Z'' JUndefined]) <
      length (filter (\<lambda>c. route (demo_heap c) = name ?B) [0, 1])"
    by (simp add: plain_entry_def demo_heap_def plain_route_def)
  have kA: "length (filter (\<lambda>p. name p = name ?A) ([] :: OrderEntry list)) <
      length (filter (\<lambda>c. route (demo_heap c) = name ?A) [0, 1])"
    by (simp add: plain_entry_def demo_heap_def plain_route_def)
  have cA: "0 = filter (\<lambda>c. route (demo_heap c) = name ?A) [0, 1] ! length (filter (\<lambda>p. name p = name ?A) ([] :: OrderEntry list))"
    by (simp add: plain_entry_def demo_heap_def plain_route_def)
  have rB: "redirect ?B = JStr ''/somewhere''" "''/somewhere'' \<noteq> []"
    by (simp_all add: plain_entry_def)
  have rA: "truthy (redirect ?A)" "\<not> typeof_string (redirect ?A)"
    by (simp_all add: plain_entry_def)
  have run: "outcome (getSortedChildren keep_order sortRoutesWithInitial_spec demo_heap [0, 1]
      (Some ([] @ ?A # [])) None) = Inr [\<lparr>sc_route = 1, sc_props = []\<rparr>]"
    by (simp add: demo_simps)
  have d: "distinct [0, 1 :: ref]" by simp
  from getSortedChildren_redirect[OF kB refl, of keep_order sortRoutesWithInitial_spec "[]" None] rB
  have 1: "outcome (getSortedChildren keep_order sortRoutesWithInitial_spec demo_heap [0, 1]
      (Some ([plain_entry ''Z'' JUndefined] @ ?B # [])) None) = Inl RedirectNotSupported"
    by blast
  from getSortedChildren_redirect[OF kA cA, of keep_order sortRoutesWithInitial_spec "[]" None] rA run d
  have 2: "0 \<notin> set (map sc_route [\<lparr>sc_route = 1, sc_props = []\<rparr>])"
    by blast
  from 1 2 run show ?thesis by simp
qed

subsection \<open>C9: the caller's children array\<close>

text \<open>
  C9 does not hold on the code. With no order (or an empty one) \<open>children.sort\<close> sorts
  the caller's array in place: children \<open>[A, C]\<close> with the initial route \<open>C\<close> are left
  as \<open>[C, A]\<close>. The branch for a non-empty order works on the copy \<open>[...children]\<close>.
\<close>

theorem getSortedChildren_sorts_caller_array:
  "children_after (getSortedChildren keep_order sortRoutesWithInitial_spec demo_heap [0, 2] None (Some ''C''))
     = [2, 0] \<and>
   children_after (getSortedChildren keep_order sortRoutesWithInitial_spec demo_heap [0, 2] (Some []) (Some ''C''))
     = [2, 0]"
  by (simp add: demo_simps)

lemma children_after_order: "children_after (getSortedChildren eng srt h cs (Some (e # es)) init) = cs"
  by (simp add: getSortedChildren_def del: order_map.simps split: prod.splits sum.splits)

subsection \<open>C10: the empty string as redirect\<close>

text \<open>
  C10. An entry whose redirect is \<open>""\<close> gives the same result, warnings and array as
  the same entry with no redirect. When the entry matches a child (as in C3, \<open>c\<close> being
  its match), every returned output holds the descriptor of \<open>c\<close> with the entry's
  override props \<open>{ initialParams, listeners, options, getId }\<close>, and the call returns
  when no other entry has a non-empty string redirect.
\<close>

theorem getSortedChildren_empty_string_redirect:
  assumes "redirect e = JStr []"
  shows "getSortedChildren eng srt h cs (Some (pre @ e # post)) init =
         getSortedChildren eng srt h cs (Some (pre @ e\<lparr>redirect := JUndefined\<rparr> # post)) init \<and>
    (length (filter (\<lambda>p. name p = name e) pre) < length (filter (\<lambda>c. route (h c) = name e) cs) \<longrightarrow>
       (\<forall>out. outcome (getSortedChildren eng srt h cs (Some (pre @ e # post)) init) = Inr out \<longrightarrow>
          \<lparr>sc_route = filter (\<lambda>c. route (h c) = name e) cs ! length (filter (\<lambda>p. name p = name e) pre),
           sc_props = [(''initialParams'', initialParams e), (''listeners'', listeners e),
                       (''options'', options e), (''getId'', getId e)]\<rparr> \<in> set out) \<and>
       ((\<forall>p \<in> set (pre @ post). \<not> (typeof_string (redirect p) \<and> truthy (redirect p))) \<longrightarrow>
          (\<exists>out. outcome (getSortedChildren eng srt h cs (Some (pre @ e # post)) init) = Inr out)))"
proof -
  have tail: "order_map h cs st (e\<lparr>redirect := JUndefined\<rparr> # post) = order_map h cs st (e # post)" for st
    by (simp add: callback_empty_string[OF assms])
  have same: "order_map h cs st (pre @ e\<lparr>redirect := JUndefined\<rparr> # post) = order_map h cs st (pre @ e # post)" for st
    by (auto simp: order_map_append tail simp del: order_map.simps split: prod.splits sum.splits)
  have "pre @ e # post \<noteq> []" "pre @ e\<lparr>redirect := JUndefined\<rparr> # post \<noteq> []" by simp_all
  then obtain a as b bs where l: "pre @ e # post = a # as" "pre @ e\<lparr>redirect := JUndefined\<rparr> # post = b # bs"
    by (metis list.exhaust)
  have eq: "getSortedChildren eng srt h cs (Some (pre @ e # post)) init =
         getSortedChildren eng srt h cs (Some (pre @ e\<lparr>redirect := JUndefined\<rparr> # post)) init"
    using same[of "\<lparr>entries = cs, warnings = []\<rparr>"] unfolding l
    by (simp add: getSortedChildren_def del: order_map.simps)
  have ret: "\<exists>out. outcome (getSortedChildren eng srt h cs (Some (pre @ e # post)) init) = Inr out"
    if "\<forall>p \<in> set (pre @ post). \<not> (typeof_string (redirect p) \<and> truthy (redirect p))"
  proof -
    from that assms have "\<forall>p \<in> set (pre @ e # post). \<not> (typeof_string (redirect p) \<and> truthy (redirect p))"
      by auto
    from order_map_no_throw[OF this, of h cs "\<lparr>entries = cs, warnings = []\<rparr>"]
    show ?thesis by (auto simp: outcome_nonempty)
  qed
  from eq ret empty_string_emits[OF assms, unfolded entry_props_def] show ?thesis by blast
qed

text \<open>
  The theorem at children \<open>[A, B, C]\<close>, initial route \<open>C\<close> and the order
  \<open>[{ name: 'B', redirect: '', initialParams, listeners, options, getId }]\<close>: the output
  is \<open>B\<close> with the entry's four props, then \<open>C\<close>, then \<open>A\<close>.
\<close>

theorem getSortedChildren_empty_string_redirect_witness:
  "outcome (getSortedChildren keep_order sortRoutesWithInitial_spec demo_heap [0, 1, 2]
      (Some [full_entry ''B'' (JStr [])]) (Some ''C'')) =
     Inr [\<lparr>sc_route = 1,
            sc_props = [(''initialParams'', JObj [(''id'', JStr ''7'')]), (''listeners'', JRef 3),
                        (''options'', JObj [(''title'', JStr ''Home'')]), (''getId'', JRef 4)]\<rparr>,
          \<lparr>sc_route = 2, sc_props = []\<rparr>, \<lparr>sc_route = 0, sc_props = []\<rparr>] \<and>
   getSortedChildren keep_order sortRoutesWithInitial_spec demo_heap [0, 1, 2]
      (Some [full_entry ''B'' (JStr [])]) (Some ''C'') =
   getSortedChildren keep_order sortRoutesWithInitial_spec demo_heap [0, 1, 2]
      (Some [full_entry ''B'' JUndefined]) (Some ''C'') \<and>
   \<lparr>sc_route = 1,
     sc_props = [(''initialParams'', JObj [(''id'', JStr ''7'')]), (''listeners'', JRef 3),
                 (''options'', JObj [(''title'', JStr ''Home'')]), (''getId'', JRef 4)]\<rparr> \<in>
     set [\<lparr>sc_route = 1,
            sc_props = [(''initialParams'', JObj [(''id'', JStr ''7'')]), (''listeners'', JRef 3),
                        (''options'', JObj [(''title'', JStr ''Home'')]), (''getId'', JRef 4)]\<rparr>,
          \<lparr>sc_route = 2, sc_props = []\<rparr>, \<lparr>sc_route = 0, sc_props = []\<rparr>]"
proof -
  let ?e = "full_entry ''B'' (JStr [])"
  let ?d = "\<lparr>sc_route = 1,
     sc_props = [(''initialParams'', JObj [(''id'', JStr ''7'')]), (''listeners'', JRef 3),
                 (''options'', JObj [(''title'', JStr ''Home'')]), (''getId'', JRef 4)]\<rparr>"
  let ?out = "[?d, \<lparr>sc_route = 2, sc_props = []\<rparr>, \<lparr>sc_route = 0, sc_props = []\<rparr>]"
  have r: "redirect ?e = JStr []" by (simp add: full_entry_def)
  have u: "?e\<lparr>redirect := JUndefined\<rparr> = full_entry ''B'' JUndefined" by (simp add: full_entry_def)
  have k: "length (filter (\<lambda>p. name p = name ?e) ([] :: OrderEntry list)) <
      length (filter (\<lambda>c. route (demo_heap c) = name ?e) [0, 1, 2])"
    by (simp add: full_entry_def demo_heap_def plain_route_def)
  have d: "\<lparr>sc_route = filter (\<lambda>c. route (demo_heap c) = name ?e) [0, 1, 2] !
              length (filter (\<lambda>p. name p = name ?e) ([] :: OrderEntry list)),
           sc_props = [(''initialParams'', initialParams ?e), (''listeners'', listeners ?e),
                       (''options'', options ?e), (''getId'', getId ?e)]\<rparr> = ?d"
    by (simp add: full_entry_def demo_heap_def plain_route_def)
  have run: "outcome (getSortedChildren keep_order sortRoutesWithInitial_spec demo_heap [0, 1, 2]
      (Some [?e]) (Some ''C'')) = Inr ?out"
    by (simp add: demo_simps full_entry_def)
  note T = getSortedChildren_empty_string_redirect[OF r,
      of keep_order sortRoutesWithInitial_spec demo_heap "[0, 1, 2]" "[]" "[]" "Some ''C''",
      unfolded append_Nil]
  from T have A: "getSortedChildren keep_order sortRoutesWithInitial_spec demo_heap [0, 1, 2] (Some [?e]) (Some ''C'') =
        getSortedChildren keep_order sortRoutesWithInitial_spec demo_heap [0, 1, 2]
          (Some [?e\<lparr>redirect := JUndefined\<rparr>]) (Some ''C'')"
    by blast
  note T2 = conjunct1[OF mp[OF conjunct2[OF T] k]]
  have B: "\<lparr>sc_route = filter (\<lambda>c. route (demo_heap c) = name ?e) [0, 1, 2] !
              length (filter (\<lambda>p. name p = name ?e) ([] :: OrderEntry list)),
           sc_props = [(''initialParams'', initialParams ?e), (''listeners'', listeners ?e),
                       (''options'', options ?e), (''getId'', getId ?e)]\<rparr> \<in> set ?out"
    by (rule mp[OF spec[OF T2] run])
  from run A[unfolded u] B[unfolded d] show ?thesis by (intro conjI)
qed

section \<open>Lemmas about the identifier\<close>

lemma Map_set_fresh: "k \<notin> fst ` set m \<Longrightarrow> Map_set m k v = m @ [(k, v)]"
  by (induction m) auto

lemma Map_set_keys: "fst ` set (Map_set m k v) = insert k (fst ` set m)"
proof (induction m)
  case Nil then show ?case by simp
next
  case (Cons a m)
  obtain k' v' where a: "a = (k', v')" by (cases a)
  show ?case
  proof (cases "k' = k")
    case True then show ?thesis by (simp add: a)
  next
    case False
    with Cons.IH show ?thesis by (simp add: a insert_commute)
  qed
qed

lemma foldl_Map_set_distinct:
  "distinct (map seg_name ds) \<Longrightarrow> seg_name ` set ds \<inter> fst ` set m = {} \<Longrightarrow>
   foldl (\<lambda>m segment. Map_set m (seg_name segment) segment) m ds = m @ map (\<lambda>s. (seg_name s, s)) ds"
proof (induction ds arbitrary: m)
  case Nil then show ?case by simp
next
  case (Cons d ds)
  from Cons.prems have fresh: "seg_name d \<notin> fst ` set m" by auto
  from Cons.prems have "seg_name ` set ds \<inter> fst ` set (m @ [(seg_name d, d)]) = {}" by auto
  with Cons.IH[of "m @ [(seg_name d, d)]"] Cons.prems(1) fresh show ?case
    by (simp add: Map_set_fresh)
qed

lemma include_map_distinct:
  "dynamic node = Some ds \<Longrightarrow> distinct (map seg_name ds) \<Longrightarrow> map snd (include_map node) = ds"
  using foldl_Map_set_distinct[of ds "[]"] by (simp add: include_map_def comp_def)

lemma Map_set_values_named:
  "\<forall>(k, s) \<in> set m. seg_name s = k \<Longrightarrow> \<forall>(k, s) \<in> set (Map_set m (seg_name d) d). seg_name s = k"
proof (induction m)
  case Nil then show ?case by simp
next
  case (Cons a m)
  obtain k' v' where a: "a = (k', v')" by (cases a)
  from Cons.prems have "\<forall>(k, s) \<in> set m. seg_name s = k" by simp
  from Cons.IH[OF this] Cons.prems show ?case by (cases "k' = seg_name d") (simp_all add: a)
qed

lemma foldl_Map_set_names:
  "\<forall>(k, s) \<in> set m. seg_name s = k \<Longrightarrow>
   (\<forall>(k, s) \<in> set (foldl (\<lambda>m segment. Map_set m (seg_name segment) segment) m ds). seg_name s = k) \<and>
   fst ` set (foldl (\<lambda>m segment. Map_set m (seg_name segment) segment) m ds) = fst ` set m \<union> seg_name ` set ds"
proof (induction ds arbitrary: m)
  case Nil then show ?case by simp
next
  case (Cons d ds)
  from Map_set_values_named[OF Cons.prems, of d]
  have "\<forall>(k, s) \<in> set (Map_set m (seg_name d) d). seg_name s = k" .
  from Cons.IH[OF this] show ?case by (auto simp: Map_set_keys)
qed

lemma include_map_names:
  "seg_name ` set (map snd (include_map node)) =
     (case dynamic node of None \<Rightarrow> {} | Some ds \<Rightarrow> seg_name ` set ds)"
proof (cases "dynamic node")
  case None then show ?thesis by (simp add: include_map_def)
next
  case (Some ds)
  let ?m = "foldl (\<lambda>m segment. Map_set m (seg_name segment) segment) [] ds"
  from foldl_Map_set_names[of "[]" ds] have
    n: "\<forall>(k, s) \<in> set ?m. seg_name s = k" and k: "fst ` set ?m = seg_name ` set ds" by auto
  have "seg_name (snd x) = fst x" if "x \<in> set ?m" for x
    using n that by (cases x) auto
  then have "seg_name ` snd ` set ?m = fst ` set ?m" by (simp add: image_image)
  with k Some show ?thesis by (simp add: include_map_def)
qed

lemma new_Set_acc: "distinct (acc @ ks) \<Longrightarrow> foldl Set_add acc ks = acc @ ks"
  by (induction ks arbitrary: acc) (auto simp: Set_add_def)

lemma new_Set_distinct: "distinct ks \<Longrightarrow> new_Set ks = ks"
  using new_Set_acc[of "[]" ks] by (simp add: new_Set_def)

lemma segment_step_eq:
  "segment_step proto ps st dyn =
     \<lparr>segments = segments st @ [segment_text proto ps dyn],
      unprocessedParams = filter (\<lambda>k. k \<noteq> seg_name dyn) (unprocessedParams st)\<rparr>"
  by (auto simp: segment_step_def segment_text_def js_get_def Set_delete_def Let_def
      split: option.splits param.splits list.splits)

lemma foldl_segment_step:
  "foldl (segment_step proto ps) st segs =
     \<lparr>segments = segments st @ map (segment_text proto ps) segs,
      unprocessedParams = filter (\<lambda>k. k \<notin> seg_name ` set segs) (unprocessedParams st)\<rparr>"
proof (induction segs arbitrary: st)
  case Nil then show ?case by simp
next
  case (Cons d segs)
  have F: "filter (\<lambda>k. k \<notin> seg_name ` set segs) (filter (\<lambda>k. k \<noteq> seg_name d) xs) =
        filter (\<lambda>k. k \<notin> seg_name ` set (d # segs)) xs" for xs
    by (induction xs) auto
  have "foldl (segment_step proto ps) st (d # segs) = foldl (segment_step proto ps) (segment_step proto ps st d) segs"
    by simp
  also have "\<dots> = \<lparr>segments = segments (segment_step proto ps st d) @ map (segment_text proto ps) segs,
      unprocessedParams = filter (\<lambda>k. k \<notin> seg_name ` set segs) (unprocessedParams (segment_step proto ps st d))\<rparr>"
    by (rule Cons.IH)
  also have "\<dots> = \<lparr>segments = segments st @ map (segment_text proto ps) (d # segs),
      unprocessedParams = filter (\<lambda>k. k \<notin> seg_name ` set (d # segs)) (unprocessedParams st)\<rparr>"
    unfolding segment_step_eq using F[of "unprocessedParams st"] by simp
  finally show ?case .
qed

lemma getId_loop_eq:
  "getId_loop proto node ps =
     \<lparr>segments = map (segment_text proto ps) (map snd (include_map node)),
      unprocessedParams =
        filter (\<lambda>k. k \<notin> (case dynamic node of None \<Rightarrow> {} | Some ds \<Rightarrow> seg_name ` set ds))
          (new_Set (map fst ps))\<rparr>"
  unfolding getId_loop_def foldl_segment_step include_map_names[symmetric] by simp

lemma js_get_own: "k \<in> fst ` set ps \<Longrightarrow> js_get proto ps k = map_of ps k"
  by (cases "map_of ps k") (auto simp: js_get_def map_of_eq_None_iff)

lemmas getId_simps =
  createGetIdForRoute_def getId_searchParams_def getId_loop_def include_map_def segment_step_def
  js_get_def new_Set_def Set_add_def Set_delete_def plain_route_def post_route_def doubled_route_def
  constructor_route_def Object_prototype_def native_def Let_def


section \<open>Claims about createGetIdForRoute\<close>

subsection \<open>C4: the dynamic segments\<close>

text \<open>
  As stated, C4 fails on a parameter that is present but empty: with the segment
  \<open>{ name: 'post', deep: false }\<close> and the params \<open>{ post: '' }\<close> the claim gives the
  value itself, the empty string, and the code gives \<open>[post]\<close>, since \<open>''\<close> is falsy.
  It also fails on two segments of one name, which the \<open>Map\<close> keeps as one entry: for
  the segments \<open>a\<close> and deep \<open>a\<close> and the params \<open>{}\<close> the claim gives \<open>[a]/[...a]\<close> and
  the code \<open>[...a]\<close>.
\<close>

theorem createGetIdForRoute_empty_string_param:
  "createGetIdForRoute Object_prototype post_route (Some [(''post'', PString [])]) = ''[post]'' \<and>
   js_join ''/'' (map (segment_as_claimed [(''post'', PString [])])
      [\<lparr>seg_name = ''post'', deep = False\<rparr>]) = [] \<and>
   createGetIdForRoute Object_prototype doubled_route (Some []) = ''[...a]'' \<and>
   js_join ''/'' (map (segment_as_claimed [])
      [\<lparr>seg_name = ''a'', deep = False\<rparr>, \<lparr>seg_name = ''a'', deep = True\<rparr>]) = ''[a]/[...a]''"
  by (simp add: getId_simps segment_as_claimed_def)

text \<open>
  C4, amended. For a route whose dynamic segments have pairwise distinct names, the
  loop makes one string per segment, in declared order. The parameter is read as
  \<open>params[name]\<close>, an own property of the params or else one they inherit. The string is
  the parameter joined with \<open>/\<close> when it is a non-empty array, its value when it is a
  non-empty string, the string it converts to when it is any other truthy value that is
  not an array (an inherited method such as \<open>constructor\<close>), and otherwise (absent, the
  empty string or an empty array) \<open>[...name]\<close> for a deep segment and \<open>[name]\<close> for any
  other; this is \<open>segment_text\<close>. The identifier is these strings joined with \<open>/\<close> when
  no search parameters are appended. With the one segment
  \<open>{ name: 'post', deep: false }\<close> the params \<open>{ post: '42' }\<close> give \<open>42\<close>, and \<open>{}\<close> or no
  params give \<open>[post]\<close>, the params inheriting no property \<open>post\<close>.
\<close>

theorem createGetIdForRoute_segments:
  assumes "dynamic node = Some ds" and "distinct (map seg_name ds)"
  shows "segments (getId_loop proto node ps) = map (segment_text proto ps) ds \<and>
     (getId_searchParams proto node ps = [] \<longrightarrow>
        createGetIdForRoute proto node (Some ps) = js_join ''/'' (map (segment_text proto ps) ds)) \<and>
     (ds = [\<lparr>seg_name = ''post'', deep = False\<rparr>] \<longrightarrow>
        createGetIdForRoute proto node (Some [(''post'', PString ''42'')]) = ''42'' \<and>
        (proto ''post'' = None \<longrightarrow>
           createGetIdForRoute proto node (Some []) = ''[post]'' \<and>
           createGetIdForRoute proto node None = ''[post]''))"
proof -
  have seg: "segments (getId_loop proto node ps) = map (segment_text proto ps) ds" for ps
    by (simp add: getId_loop_eq include_map_distinct[OF assms])
  have unp: "unprocessedParams (getId_loop proto node ps) =
      filter (\<lambda>k. k \<notin> seg_name ` set ds) (new_Set (map fst ps))" for ps
    by (simp add: getId_loop_eq assms(1))
  have plain: "createGetIdForRoute proto node (Some ps) = js_join ''/'' (map (segment_text proto ps) ds)"
    if "getId_searchParams proto node ps = []" for ps
    using that by (simp add: createGetIdForRoute_def seg)
  have s1: "getId_searchParams proto node [(''post'', PString ''42'')] = []"
    if "ds = [\<lparr>seg_name = ''post'', deep = False\<rparr>]"
    by (simp add: getId_searchParams_def unp that new_Set_def Set_add_def)
  have s2: "getId_searchParams proto node [] = []"
    by (simp add: getId_searchParams_def unp new_Set_def)
  have none: "createGetIdForRoute proto node None = createGetIdForRoute proto node (Some [])"
    by (simp add: createGetIdForRoute_def)
  have "createGetIdForRoute proto node (Some [(''post'', PString ''42'')]) = ''42'' \<and>
        (proto ''post'' = None \<longrightarrow>
           createGetIdForRoute proto node (Some []) = ''[post]'' \<and>
           createGetIdForRoute proto node None = ''[post]'')"
    if d: "ds = [\<lparr>seg_name = ''post'', deep = False\<rparr>]"
    using plain[OF s1[OF d]] plain[OF s2] none by (simp add: d segment_text_def)
  with seg plain show ?thesis by blast
qed

text \<open>
  The theorem on the route \<open>[post]\<close> with the params \<open>{ post: '42' }\<close>, \<open>{}\<close> and
  \<open>{ post: ['a', 'b'] }\<close>, and on the route \<open>[constructor]\<close> with the params \<open>{}\<close>, which
  inherit \<open>constructor\<close> from \<open>Object.prototype\<close>.
\<close>

theorem createGetIdForRoute_segments_witness:
  "createGetIdForRoute Object_prototype post_route (Some [(''post'', PString ''42'')]) = ''42'' \<and>
   createGetIdForRoute Object_prototype post_route (Some []) = ''[post]'' \<and>
   segments (getId_loop Object_prototype post_route [(''post'', PArray [''a'', ''b''])]) = [''a/b''] \<and>
   segments (getId_loop Object_prototype constructor_route []) =
     [''function Object() { [native code] }'']"
proof -
  have d: "dynamic post_route = Some [\<lparr>seg_name = ''post'', deep = False\<rparr>]"
    by (simp add: post_route_def plain_route_def)
  have n: "distinct (map seg_name [\<lparr>seg_name = ''post'', deep = False\<rparr>])" by simp
  have p: "Object_prototype ''post'' = None" by (simp add: Object_prototype_def)
  have dc: "dynamic constructor_route = Some [\<lparr>seg_name = ''constructor'', deep = False\<rparr>]"
    by (simp add: constructor_route_def plain_route_def)
  have nc: "distinct (map seg_name [\<lparr>seg_name = ''constructor'', deep = False\<rparr>])" by simp
  from createGetIdForRoute_segments[OF d n, of Object_prototype "[(''post'', PArray [''a'', ''b''])]"] p
  have 1: "createGetIdForRoute Object_prototype post_route (Some [(''post'', PString ''42'')]) = ''42'' \<and>
     createGetIdForRoute Object_prototype post_route (Some []) = ''[post]'' \<and>
     segments (getId_loop Object_prototype post_route [(''post'', PArray [''a'', ''b''])]) = [''a/b'']"
    by (simp add: segment_text_def)
  from createGetIdForRoute_segments[OF dc nc, of Object_prototype "[]"]
  have 2: "segments (getId_loop Object_prototype constructor_route []) =
     [''function Object() { [native code] }'']"
    by (simp add: segment_text_def Object_prototype_def native_def)
  from 1 2 show ?thesis by simp
qed

subsection \<open>C5: the residual search parameters\<close>

text \<open>
  C5. For a leaf route (\<open>children\<close> of length zero) and a parameter object, the
  residual keys are the keys of the object, in its own order, that name no dynamic
  segment of the route and are neither \<open>screen\<close> nor \<open>params\<close>. When there are none the
  identifier is the joined segment string; otherwise it is that string, or the
  \<open>contextKey\<close> when the string is empty, followed by \<open>?\<close> and the pairs \<open>key=value\<close>
  joined with \<open>&\<close>, the value being the string itself or the elements of the array
  joined with a comma. A route that is not a leaf gets the joined segment string
  alone. A leaf without dynamic segments and the params \<open>{ q: 'abc' }\<close> gives the
  \<open>contextKey\<close> followed by \<open>?q=abc\<close>.
\<close>

theorem createGetIdForRoute_residual:
  "(children node = Some [] \<longrightarrow> distinct (map fst ps) \<longrightarrow>
      createGetIdForRoute proto node (Some ps) =
        (let base = js_join ''/'' (segments (getId_loop proto node ps));
             residual = filter (\<lambda>k. k \<notin> (case dynamic node of None \<Rightarrow> {} | Some ds \<Rightarrow> seg_name ` set ds) \<and>
                                    k \<noteq> ''screen'' \<and> k \<noteq> ''params'') (map fst ps)
         in if residual = [] then base
            else (if base \<noteq> [] then base else contextKey node) @ ''?'' @
                 js_join ''&''
                   (map (\<lambda>k. k @ ''='' @
                      (case map_of ps k of
                         Some (PString s) \<Rightarrow> s
                       | Some (PArray xs) \<Rightarrow> js_join '','' xs
                       | Some (PObject t) \<Rightarrow> t
                       | None \<Rightarrow> ''undefined'')) residual))) \<and>
   (children node \<noteq> Some [] \<longrightarrow>
      createGetIdForRoute proto node arg =
        js_join ''/'' (segments (getId_loop proto node (case arg of None \<Rightarrow> [] | Some p \<Rightarrow> p)))) \<and>
   (children node = Some [] \<longrightarrow> (dynamic node = None \<or> dynamic node = Some []) \<longrightarrow>
      createGetIdForRoute proto node (Some [(''q'', PString ''abc'')]) = contextKey node @ ''?q=abc'')"
proof -
  let ?text = "\<lambda>k. k @ ''='' @
      (case map_of ps k of
         Some (PString s) \<Rightarrow> s
       | Some (PArray xs) \<Rightarrow> js_join '','' xs
       | Some (PObject t) \<Rightarrow> t
       | None \<Rightarrow> ''undefined'')"
  let ?residual = "filter (\<lambda>k. k \<notin> (case dynamic node of None \<Rightarrow> {} | Some ds \<Rightarrow> seg_name ` set ds) \<and>
                                    k \<noteq> ''screen'' \<and> k \<noteq> ''params'') (map fst ps)"
  have vt: "k @ ''='' @ param_string (js_get proto ps k) = ?text k" if "k \<in> set ?residual" for k
  proof -
    from that have "k \<in> fst ` set ps" by auto
    then have "js_get proto ps k = map_of ps k" by (rule js_get_own)
    then show ?thesis by (auto split: option.splits param.splits)
  qed
  have leaf: "getId_searchParams proto node ps = map ?text ?residual"
    if "children node = Some []" "distinct (map fst ps)"
  proof -
    from that have "getId_searchParams proto node ps =
        map (\<lambda>k. k @ ''='' @ param_string (js_get proto ps k)) ?residual"
      by (simp add: getId_searchParams_def getId_loop_eq new_Set_distinct conj_commute)
    also have "\<dots> = map ?text ?residual" using vt by (intro map_cong) auto
    finally show ?thesis .
  qed
  have 1: "createGetIdForRoute proto node (Some ps) =
        (let base = js_join ''/'' (segments (getId_loop proto node ps));
             residual = ?residual
         in if residual = [] then base
            else (if base \<noteq> [] then base else contextKey node) @ ''?'' @
                 js_join ''&'' (map ?text residual))"
    if "children node = Some []" "distinct (map fst ps)"
    by (simp add: createGetIdForRoute_def leaf[OF that] Let_def)
  have 2: "createGetIdForRoute proto node arg =
        js_join ''/'' (segments (getId_loop proto node (case arg of None \<Rightarrow> [] | Some p \<Rightarrow> p)))"
    if "children node \<noteq> Some []"
    using that by (auto simp: createGetIdForRoute_def getId_searchParams_def Let_def split: option.splits list.splits)
  have 3: "createGetIdForRoute proto node (Some [(''q'', PString ''abc'')]) = contextKey node @ ''?q=abc''"
    if "children node = Some []" "dynamic node = None \<or> dynamic node = Some []"
    using that by (auto simp: getId_simps)
  from 1 2 3 show ?thesis by blast
qed

text \<open>
  The theorem on the leaf \<open>[post]\<close> with the params
  \<open>{ post: '42', q: 'abc', screen: 'x', tags: ['a', 'b'], params: 'y' }\<close>, on a static leaf
  with \<open>{ q: 'abc' }\<close>, and on a layout with two children.
\<close>

theorem createGetIdForRoute_residual_witness:
  "createGetIdForRoute Object_prototype post_route
      (Some [(''post'', PString ''42''), (''q'', PString ''abc''), (''screen'', PString ''x''),
             (''tags'', PArray [''a'', ''b'']), (''params'', PString ''y'')]) =
     ''42?q=abc&tags=a,b'' \<and>
   createGetIdForRoute Object_prototype (plain_route ''index'') (Some [(''q'', PString ''abc'')]) =
     ''./index.tsx?q=abc'' \<and>
   createGetIdForRoute Object_prototype ((plain_route ''(tabs)'')\<lparr>children := Some [0, 1]\<rparr>)
      (Some [(''q'', PString ''abc'')]) = []"
proof -
  let ?ps = "[(''post'', PString ''42''), (''q'', PString ''abc''), (''screen'', PString ''x''),
             (''tags'', PArray [''a'', ''b'']), (''params'', PString ''y'')]"
  let ?tabs = "(plain_route ''(tabs)'')\<lparr>children := Some [0, 1]\<rparr>"
  have l1: "children post_route = Some []" by (simp add: post_route_def plain_route_def)
  have k1: "distinct (map fst ?ps)" by simp
  have b1: "js_join ''/'' (segments (getId_loop Object_prototype post_route ?ps)) = ''42''"
    by (simp add: getId_simps)
  have d1: "dynamic post_route = Some [\<lparr>seg_name = ''post'', deep = False\<rparr>]"
    by (simp add: post_route_def plain_route_def)
  have l2: "children (plain_route ''index'') = Some []" by (simp add: plain_route_def)
  have d2: "dynamic (plain_route ''index'') = None \<or> dynamic (plain_route ''index'') = Some []"
    by (simp add: plain_route_def)
  have l3: "children ?tabs \<noteq> Some []" by (simp add: plain_route_def)
  have b3: "js_join ''/'' (segments (getId_loop Object_prototype ?tabs [(''q'', PString ''abc'')])) = []"
    by (simp add: getId_simps)
  from createGetIdForRoute_residual[of post_route ?ps Object_prototype None] l1 k1
  have 1: "createGetIdForRoute Object_prototype post_route (Some ?ps) = ''42?q=abc&tags=a,b''"
    by (simp add: b1 d1 Let_def)
  from createGetIdForRoute_residual[of "plain_route ''index''" "[]" Object_prototype None] l2 d2
  have 2: "createGetIdForRoute Object_prototype (plain_route ''index'') (Some [(''q'', PString ''abc'')]) =
      contextKey (plain_route ''index'') @ ''?q=abc''"
    by blast
  from createGetIdForRoute_residual[of ?tabs "[]" Object_prototype "Some [(''q'', PString ''abc'')]"] l3
  have "createGetIdForRoute Object_prototype ?tabs (Some [(''q'', PString ''abc'')]) =
      js_join ''/'' (segments (getId_loop Object_prototype ?tabs
        (case Some [(''q'', PString ''abc'')] of None \<Rightarrow> [] | Some p \<Rightarrow> p)))"
    by blast
  with b3 have 3: "createGetIdForRoute Object_prototype ?tabs (Some [(''q'', PString ''abc'')]) = []"
    by simp
  from 1 2 3 show ?thesis by (simp add: plain_route_def)
qed

subsection \<open>C6: an identifier that is never empty\<close>

text \<open>
  C6 does not hold on the code. The \<open>contextKey\<close> stands in only when search
  parameters are appended: a route without dynamic segments called with the params
  \<open>{}\<close>, or with none, gets the empty string, against the comment before the
  \<open>return\<close> (a truthy value should always be returned).
\<close>

theorem createGetIdForRoute_empty_identifier:
  "createGetIdForRoute Object_prototype (plain_route ''index'') (Some []) = [] \<and>
   createGetIdForRoute Object_prototype (plain_route ''index'') None = [] \<and>
   contextKey (plain_route ''index'') = ''./index.tsx''"
  by (simp add: getId_simps)

section \<open>Claims about the component adapter and the screen options\<close>

lemma cached_call:
  "qualifiedStore st v = Some c \<Longrightarrow> getQualifiedRouteComponent mode production h st v = (Inr c, st)"
  by (simp add: getQualifiedRouteComponent_def)

lemma fresh_call:
  assumes "qualifiedStore st v = None"
    and "getQualifiedRouteComponent mode production h st v = (Inr c, st1)"
  shows "c = Suc (next_object st) \<and> next_object st1 = Suc (Suc (next_object st)) \<and>
         qualifiedStore st1 = (qualifiedStore st)(v \<mapsto> c)"
  using assms
  by (auto simp: getQualifiedRouteComponent_def allocate_def Let_def split: sum.splits if_splits)

lemma call_store:
  assumes "store_ok st"
    and "getQualifiedRouteComponent mode production h st v = (Inr c, st1)"
  shows "store_ok st1 \<and> qualifiedStore st1 v = Some c \<and>
         (\<forall>w d. qualifiedStore st w = Some d \<longrightarrow> qualifiedStore st1 w = Some d)"
proof (cases "qualifiedStore st v")
  case (Some d)
  with assms show ?thesis by (simp add: cached_call)
next
  case None
  from fresh_call[OF None assms(2)] have
    c: "c = Suc (next_object st)" and n: "next_object st1 = Suc (Suc (next_object st))" and
    q: "qualifiedStore st1 = (qualifiedStore st)(v \<mapsto> c)" by simp_all
  have old: "d < next_object st" if "qualifiedStore st w = Some d" for w d
    using assms(1) that unfolding store_ok_def by blast
  have "store_ok st1"
    unfolding store_ok_def
  proof (intro conjI allI impI)
    fix w d assume "qualifiedStore st1 w = Some d"
    then show "d < next_object st1"
      using old[of w d] by (auto simp: q c n split: if_splits)
  next
    fix u w d assume a: "qualifiedStore st1 u = Some d" "qualifiedStore st1 w = Some d"
    show "u = w"
    proof (cases "u = v")
      case True
      with a(1) have d: "d = c" by (simp add: q)
      show ?thesis
      proof (rule ccontr)
        assume "u \<noteq> w"
        with True a(2) have "qualifiedStore st w = Some d" by (simp add: q)
        from old[OF this] d c show False by simp
      qed
    next
      case False
      with a(1) have u: "qualifiedStore st u = Some d" by (simp add: q)
      show ?thesis
      proof (cases "w = v")
        case True
        with a(2) have "d = c" by (simp add: q)
        with old[OF u] c show ?thesis by simp
      next
        case False
        with a(2) have "qualifiedStore st w = Some d" by (simp add: q)
        with u assms(1) show ?thesis unfolding store_ok_def by blast
      qed
    qed
  qed
  moreover have "qualifiedStore st1 v = Some c" by (simp add: q)
  moreover have "\<forall>w d. qualifiedStore st w = Some d \<longrightarrow> qualifiedStore st1 w = Some d"
    using None by (auto simp: q)
  ultimately show ?thesis by blast
qed

lemma lazy_returns:
  "\<exists>c st1. getQualifiedRouteComponent LazyImport production h st v = (Inr c, st1)"
  by (auto simp: getQualifiedRouteComponent_def allocate_def Let_def split: option.splits)


subsection \<open>C7: memoization by the identity of the node\<close>

text \<open>
  C7. In a store the calls can reach, once \<open>getQualifiedRouteComponent\<close> has returned
  the component \<open>c\<close> for the node reference \<open>v\<close>, a second call with \<open>v\<close> returns the
  same reference \<open>c\<close> and leaves the store as it is; a call with any other reference
  \<open>w\<close> returns a component \<open>d\<close> different from \<open>c\<close>, whatever the fields of the two nodes
  are (the heap \<open>h\<close> is arbitrary, so they may be equal), and \<open>v\<close> keeps \<open>c\<close> afterwards.
  In lazy mode every call returns.
\<close>

theorem getQualifiedRouteComponent_memoized:
  assumes "store_ok st"
    and "getQualifiedRouteComponent mode production h st v = (Inr c, st1)"
  shows "getQualifiedRouteComponent mode production h st1 v = (Inr c, st1) \<and>
         store_ok st1 \<and>
         (\<forall>w d st2. w \<noteq> v \<longrightarrow>
            getQualifiedRouteComponent mode production h st1 w = (Inr d, st2) \<longrightarrow>
            d \<noteq> c \<and> getQualifiedRouteComponent mode production h st2 v = (Inr c, st2)) \<and>
         (mode = LazyImport \<longrightarrow>
            (\<forall>w. \<exists>d st2. getQualifiedRouteComponent mode production h st1 w = (Inr d, st2)))"
proof -
  from call_store[OF assms] have ok1: "store_ok st1" and q1: "qualifiedStore st1 v = Some c"
    by simp_all
  have again: "getQualifiedRouteComponent mode production h st1 v = (Inr c, st1)"
    using q1 by (rule cached_call)
  have other: "d \<noteq> c \<and> getQualifiedRouteComponent mode production h st2 v = (Inr c, st2)"
    if "w \<noteq> v" "getQualifiedRouteComponent mode production h st1 w = (Inr d, st2)" for w d st2
  proof -
    from call_store[OF ok1 that(2)] have ok2: "store_ok st2" and qw: "qualifiedStore st2 w = Some d"
      and keep: "\<forall>u e. qualifiedStore st1 u = Some e \<longrightarrow> qualifiedStore st2 u = Some e" by simp_all
    from keep q1 have qv: "qualifiedStore st2 v = Some c" by blast
    from ok2 qw qv that(1) have "d \<noteq> c" unfolding store_ok_def by blast
    with cached_call[OF qv] show ?thesis by simp
  qed
  from again ok1 other lazy_returns show ?thesis by blast
qed


text \<open>
  The theorem from the empty store, on two references whose nodes have the same
  fields: the first gets the component 1, twice, and the second the component 3.
\<close>

theorem getQualifiedRouteComponent_memoized_witness:
  "getQualifiedRouteComponent LazyImport False twin_heap empty_store 0 =
     (Inr 1, \<lparr>qualifiedStore = [0 \<mapsto> 1],
        objects = [0 \<mapsto> LazyComponent 0, 1 \<mapsto> QualifiedRoute ''Route(A)'' 0 0],
        next_object = 2\<rparr>) \<and>
   getQualifiedRouteComponent LazyImport False twin_heap
     \<lparr>qualifiedStore = [0 \<mapsto> 1],
      objects = [0 \<mapsto> LazyComponent 0, 1 \<mapsto> QualifiedRoute ''Route(A)'' 0 0],
      next_object = 2\<rparr> 0 =
     (Inr 1, \<lparr>qualifiedStore = [0 \<mapsto> 1],
        objects = [0 \<mapsto> LazyComponent 0, 1 \<mapsto> QualifiedRoute ''Route(A)'' 0 0],
        next_object = 2\<rparr>) \<and>
   fst (getQualifiedRouteComponent LazyImport False twin_heap
     \<lparr>qualifiedStore = [0 \<mapsto> 1],
      objects = [0 \<mapsto> LazyComponent 0, 1 \<mapsto> QualifiedRoute ''Route(A)'' 0 0],
      next_object = 2\<rparr> 1) = Inr 3 \<and>
   twin_heap 0 = twin_heap 1 \<and> (3 :: nat) \<noteq> 1"
proof -
  let ?st1 = "\<lparr>qualifiedStore = [0 \<mapsto> 1],
      objects = [0 \<mapsto> LazyComponent 0, 1 \<mapsto> QualifiedRoute ''Route(A)'' 0 0],
      next_object = 2\<rparr>"
  have ok: "store_ok empty_store" by (simp add: store_ok_def empty_store_def)
  have first: "getQualifiedRouteComponent LazyImport False twin_heap empty_store 0 = (Inr 1, ?st1)"
    by (simp add: getQualifiedRouteComponent_def allocate_def empty_store_def twin_heap_def
        plain_route_def)
  have second: "fst (getQualifiedRouteComponent LazyImport False twin_heap ?st1 1) = Inr 3"
    by (simp add: getQualifiedRouteComponent_def allocate_def twin_heap_def plain_route_def)
  from getQualifiedRouteComponent_memoized[OF ok first]
  have again: "getQualifiedRouteComponent LazyImport False twin_heap ?st1 0 = (Inr 1, ?st1)"
    by (rule conjunct1)
  have twins: "twin_heap 0 = twin_heap 1" by (simp add: twin_heap_def)
  from first again second twins show ?thesis by simp
qed

subsection \<open>C8: the options of a generated route\<close>

text \<open>
  C8. For a generated route, whatever the module's static options and the override
  options are, the options object built for any call arguments has \<open>tabBarButton\<close>
  set to the function that returns \<open>null\<close> and \<open>drawerItemStyle\<close> set to
  \<open>{ height: 0, display: 'none' }\<close>; every other key has the override's value when the
  override sets it and the static one otherwise, so the two fields are forced after the
  merge.
\<close>

theorem routeToScreen_generated:
  assumes "generated node"
  shows "routeToScreen_options node opts args ''tabBarButton'' = Some (JFun JNull) \<and>
     routeToScreen_options node opts args ''drawerItemStyle'' =
       Some (JObj [(''height'', JNum 0), (''display'', JStr ''none'')]) \<and>
     (\<forall>k. k \<noteq> ''tabBarButton'' \<longrightarrow> k \<noteq> ''drawerItemStyle'' \<longrightarrow>
        routeToScreen_options node opts args k =
          (case spread (apply_options opts args) k of
             Some v \<Rightarrow> Some v
           | None \<Rightarrow> spread (apply_options (loaded_getNavOptions (loadRoute node)) args) k))"
  using assms by (simp add: routeToScreen_options_def Let_def map_add_def)


text \<open>
  The theorem on a generated route whose module and whose override options both set
  \<open>tabBarButton\<close>: the forced values win, and the static \<open>title\<close> is kept.
\<close>

theorem routeToScreen_generated_witness:
  "routeToScreen_options generated_route override_options JUndefined ''tabBarButton'' =
     Some (JFun JNull) \<and>
   routeToScreen_options generated_route override_options JUndefined ''drawerItemStyle'' =
     Some (JObj [(''height'', JNum 0), (''display'', JStr ''none'')]) \<and>
   routeToScreen_options generated_route override_options JUndefined ''title'' =
     Some (JStr ''Sitemap'')"
proof -
  have g: "generated generated_route" by (simp add: generated_route_def)
  from routeToScreen_generated[OF g, of override_options JUndefined]
  show ?thesis
    by (simp add: generated_route_def static_module_def override_options_def
        loaded_getNavOptions_def apply_options_def spread_def)
qed

end
